theory Spec2Isabelle
  imports Main
begin

section \<open>Python values used by \<open>khoj/processor/text_to_jsonl.py\<close>\<close>

text \<open>
  Exceptions are values: every function of the model that can raise returns
  \<open>py_error + 'a\<close>, with \<open>Inl\<close> the exception.
\<close>

datatype py_error = ValueError | KeyError | AssertionError

definition bind_err :: "py_error + 'a \<Rightarrow> ('a \<Rightarrow> py_error + 'b) \<Rightarrow> py_error + 'b" where
  "bind_err m f = (case m of Inl e \<Rightarrow> Inl e | Inr v \<Rightarrow> f v)"

text \<open>A list comprehension whose body can raise: the first exception ends it.\<close>

fun map_err :: "('a \<Rightarrow> py_error + 'b) \<Rightarrow> 'a list \<Rightarrow> py_error + 'b list" where
  "map_err f [] = Inr []"
| "map_err f (x # xs) =
     (case f x of
        Inl e \<Rightarrow> Inl e
      | Inr y \<Rightarrow> (case map_err f xs of Inl e \<Rightarrow> Inl e | Inr ys \<Rightarrow> Inr (y # ys)))"

text \<open>
  A Python \<open>str\<close> is a sequence of code points and \<open>len\<close> counts them. The
  model writes it as \<open>string\<close>, one \<open>char\<close> standing for one code point.
\<close>

text \<open>\<open>s.split(" ")\<close>: cut at every single space; empty pieces are kept.\<close>

fun py_split :: "char \<Rightarrow> string \<Rightarrow> string list" where
  "py_split sep [] = [[]]"
| "py_split sep (c # cs) =
     (if c = sep then [] # py_split sep cs
      else (case py_split sep cs of
              [] \<Rightarrow> [[c]]
            | w # ws \<Rightarrow> (c # w) # ws))"

text \<open>\<open>sep.join(words)\<close>.\<close>

fun py_join :: "string \<Rightarrow> string list \<Rightarrow> string" where
  "py_join sep [] = []"
| "py_join sep [w] = w"
| "py_join sep (w # v # ws) = w @ sep @ py_join sep (v # ws)"

text \<open>
  \<open>range(0, stop, step)\<close> as the list of its values: a zero step raises
  \<open>ValueError\<close>, a negative step from \<open>0\<close> up to a length gives nothing.
\<close>

definition py_range0 :: "nat \<Rightarrow> int \<Rightarrow> py_error + nat list" where
  "py_range0 stop step =
     (if step = 0 then Inl ValueError
      else if step < 0 then Inr []
      else Inr (map (\<lambda>k. k * nat step) [0 ..< (stop + nat step - 1) div nat step]))"

text \<open>\<open>s[-n:]\<close> for a positive \<open>n\<close>: the last \<open>n\<close> items, all of \<open>s\<close> when it is shorter.\<close>

definition py_suffix :: "nat \<Rightarrow> 'a list \<Rightarrow> 'a list" where
  "py_suffix n s = drop (length s - n) s"

section \<open>Entry\<close>

text \<open>
  Modelled from the spec: the class \<open>Entry\<close> of \<open>khoj.utils.rawconfig\<close>, which
  the sources only import. Its fields are those the constructor call in
  \<open>split_entries_by_max_tokens\<close> names; \<open>corpus_id\<close> is \<open>None\<close> until the
  chunker sets it.
\<close>

type_synonym uuid = nat

record entry =
  raw :: string
  compiled :: string
  heading :: string
  "file" :: string
  corpus_id :: "uuid option"

section \<open>The chunker: \<open>TextEmbeddings.split_entries_by_max_tokens\<close>\<close>

text \<open>
  The two list comprehensions at the head of the loop body: the non-empty
  pieces of \<open>entry.compiled.split(" ")\<close>, then those of at most
  \<open>max_word_length\<close> code points.
\<close>

definition compiled_entry_words :: "int \<Rightarrow> entry \<Rightarrow> string list" where
  "compiled_entry_words max_word_length e =
     filter (\<lambda>word. int (length word) \<le> max_word_length)
       (filter (\<lambda>word. word \<noteq> []) (py_split CHR '' '' (compiled e)))"

text \<open>
  The body of the inner loop for one \<open>chunk_index\<close>: the slice
  \<open>words[chunk_index : chunk_index + max_tokens]\<close> joined by spaces, with the
  last 100 characters of the heading, a period and a newline in front of every
  chunk but the first.
\<close>

definition entry_chunk :: "int \<Rightarrow> uuid \<Rightarrow> entry \<Rightarrow> string list \<Rightarrow> nat \<Rightarrow> entry" where
  "entry_chunk max_tokens cid e ws chunk_index =
     (let compiled_entry_words_chunk = take (nat max_tokens) (drop chunk_index ws);
          compiled_entry_chunk = py_join '' '' compiled_entry_words_chunk;
          compiled_entry_chunk' =
            (if chunk_index > 0
             then py_suffix 100 (heading e) @ [CHR ''.'', CHR 0x0A] @ compiled_entry_chunk
             else compiled_entry_chunk)
      in \<lparr> raw = raw e, compiled = compiled_entry_chunk', heading = heading e,
           file = file e, corpus_id = Some cid \<rparr>)"

text \<open>The chunks of one input entry, given the \<open>uuid4()\<close> drawn for it.\<close>

definition entry_chunks :: "int \<Rightarrow> int \<Rightarrow> uuid \<Rightarrow> entry \<Rightarrow> py_error + entry list" where
  "entry_chunks max_tokens max_word_length cid e =
     (let ws = compiled_entry_words max_word_length e
      in bind_err (py_range0 (length ws) max_tokens)
           (\<lambda>idxs. Inr (map (entry_chunk max_tokens cid e ws) idxs)))"

text \<open>
  The outer loop. \<open>uuid.uuid4()\<close> is random: \<open>uuid4 k\<close> is the value of the
  \<open>k\<close>-th call of the run, and the loop counts the calls. One value is drawn
  for every input entry, also for one that yields no chunk.
\<close>

fun split_entries_from :: "(nat \<Rightarrow> uuid) \<Rightarrow> nat \<Rightarrow> entry list \<Rightarrow> int \<Rightarrow> int \<Rightarrow> py_error + entry list" where
  "split_entries_from uuid4 k [] max_tokens max_word_length = Inr []"
| "split_entries_from uuid4 k (e # es) max_tokens max_word_length =
     bind_err (entry_chunks max_tokens max_word_length (uuid4 k) e)
       (\<lambda>chunks. bind_err (split_entries_from uuid4 (Suc k) es max_tokens max_word_length)
          (\<lambda>rest. Inr (chunks @ rest)))"

definition split_entries_by_max_tokens :: "(nat \<Rightarrow> uuid) \<Rightarrow> entry list \<Rightarrow> int \<Rightarrow> int \<Rightarrow> py_error + entry list" where
  "split_entries_by_max_tokens uuid4 entries max_tokens max_word_length =
     split_entries_from uuid4 0 entries max_tokens max_word_length"

text \<open>
  The words of an entry as the specification words them, for comparison with
  \<open>compiled_entry_words\<close>: the text is split on whitespace (any run of spaces,
  tabs, line feeds, vertical tabs, form feeds or carriage returns, as
  \<open>str.split()\<close> does it), and the words longer than \<open>max_word_length\<close> are
  dropped.
\<close>

definition is_whitespace :: "char \<Rightarrow> bool" where
  "is_whitespace c \<longleftrightarrow>
     c = CHR '' '' \<or> c = CHR 0x09 \<or> c = CHR 0x0A \<or> c = CHR 0x0B \<or> c = CHR 0x0C \<or> c = CHR 0x0D"

fun split_where :: "(char \<Rightarrow> bool) \<Rightarrow> string \<Rightarrow> string list" where
  "split_where is_sep [] = [[]]"
| "split_where is_sep (c # cs) =
     (if is_sep c then [] # split_where is_sep cs
      else (case split_where is_sep cs of
              [] \<Rightarrow> [[c]]
            | w # ws \<Rightarrow> (c # w) # ws))"

definition spec_words_split_on_whitespace :: "int \<Rightarrow> entry \<Rightarrow> string list" where
  "spec_words_split_on_whitespace max_word_length e =
     filter (\<lambda>word. int (length word) \<le> max_word_length)
       (filter (\<lambda>word. word \<noteq> []) (split_where is_whitespace (compiled e)))"

section \<open>Hashes, sets and dictionaries\<close>

text \<open>
  \<open>hash_func(key)\<close> is \<open>hashlib.md5\<close> of the UTF-8 bytes of the field that
  \<open>key\<close> names, as a hex digest. \<open>hashlib\<close> is not code of the repository:
  the digest is the parameter \<open>md5\<close>, from the field's text to the digest.
\<close>

type_synonym hashv = string

datatype entry_key = KeyRaw | KeyCompiled | KeyHeading | KeyFile

fun getattr :: "entry \<Rightarrow> entry_key \<Rightarrow> string" where
  "getattr e KeyRaw = raw e"
| "getattr e KeyCompiled = compiled e"
| "getattr e KeyHeading = heading e"
| "getattr e KeyFile = file e"

definition hash_func :: "(string \<Rightarrow> hashv) \<Rightarrow> entry_key \<Rightarrow> entry \<Rightarrow> hashv" where
  "hash_func md5 key = (\<lambda>e. md5 (getattr e key))"

text \<open>
  A Python \<open>set\<close> is written as the list of its members, each once. Python
  leaves the order in which a set is iterated open; the model iterates in the
  order of the list.
\<close>

definition py_set :: "'a list \<Rightarrow> 'a list" where
  "py_set xs = remdups xs"

definition set_add :: "'a list \<Rightarrow> 'a \<Rightarrow> 'a list" where
  "set_add s x = (if x \<in> set s then s else s @ [x])"

definition set_diff :: "'a list \<Rightarrow> 'a list \<Rightarrow> 'a list" where
  "set_diff a b = filter (\<lambda>x. x \<notin> set b) a"

definition set_inter :: "'a list \<Rightarrow> 'a list \<Rightarrow> 'a list" where
  "set_inter a b = filter (\<lambda>x. x \<in> set b) a"

definition set_union :: "'a list \<Rightarrow> 'a list \<Rightarrow> 'a list" where
  "set_union a b = a @ filter (\<lambda>x. x \<notin> set a) b"

text \<open>\<open>dict(pairs)\<close>: a later pair replaces an earlier one with the same key.\<close>

definition py_dict :: "('k \<times> 'v) list \<Rightarrow> ('k \<rightharpoonup> 'v)" where
  "py_dict kvs = map_of (rev kvs)"

text \<open>\<open>d[k]\<close> raises \<open>KeyError\<close> on a missing key.\<close>

definition dict_get :: "('k \<rightharpoonup> 'v) \<Rightarrow> 'k \<Rightarrow> py_error + 'v" where
  "dict_get d k = (case d k of None \<Rightarrow> Inl KeyError | Some v \<Rightarrow> Inr v)"

text \<open>\<open>xs.index(x)\<close>: the first position of \<open>x\<close>, \<open>ValueError\<close> when there is none.\<close>

fun py_index :: "'a list \<Rightarrow> 'a \<Rightarrow> py_error + nat" where
  "py_index [] x = Inl ValueError"
| "py_index (y # ys) x =
     (if y = x then Inr 0
      else (case py_index ys x of Inl e \<Rightarrow> Inl e | Inr i \<Rightarrow> Inr (Suc i)))"

text \<open>
  \<open>d.setdefault(k, set()).add(v)\<close> on a dictionary of sets, kept as an
  association list in the order in which the keys were first inserted.
\<close>

fun setdefault_add :: "('k \<times> 'v list) list \<Rightarrow> 'k \<Rightarrow> 'v \<Rightarrow> ('k \<times> 'v list) list" where
  "setdefault_add [] k v = [(k, [v])]"
| "setdefault_add ((k', s) # d) k v =
     (if k' = k then (k', set_add s v) # d else (k', s) # setdefault_add d k v)"

section \<open>The list-backed diff: \<open>TextEmbeddings.mark_entries_for_update\<close>\<close>

text \<open>
  The comprehension \<open>[(hashes.index(h), hash_to_entries[h]) for h in hs]\<close>.
\<close>

definition index_entries :: "hashv list \<Rightarrow> (hashv \<rightharpoonup> entry) \<Rightarrow> hashv list \<Rightarrow> py_error + (int \<times> entry) list" where
  "index_entries entry_hashes hash_to_entries hs =
     map_err (\<lambda>entry_hash.
        bind_err (py_index entry_hashes entry_hash) (\<lambda>i.
        bind_err (dict_get hash_to_entries entry_hash) (\<lambda>e. Inr (int i, e)))) hs"

text \<open>
  The hashes to preserve (the assignments to \<open>existing_entry_hashes\<close>,
  \<open>remaining_entry_hashes\<close>, \<open>to_delete_entry_hashes\<close> and
  \<open>preserving_entry_hashes\<close>).
\<close>

definition preserving_hashes ::
  "(string \<Rightarrow> hashv) \<Rightarrow> entry list \<Rightarrow> entry list \<Rightarrow> entry_key \<Rightarrow> string list option \<Rightarrow> hashv list" where
  "preserving_hashes md5 current_entries previous_entries key deletion_filenames =
     (let current_entry_hashes = map (hash_func md5 key) current_entries;
          previous_entry_hashes = map (hash_func md5 key) previous_entries;
          deletion_entry_hashes =
            (case deletion_filenames of
               Some fs \<Rightarrow> map (hash_func md5 key) (filter (\<lambda>e. file e \<in> set fs) previous_entries)
             | None \<Rightarrow> []);
          existing_entry_hashes = set_inter (py_set current_entry_hashes) (py_set previous_entry_hashes);
          remaining_entry_hashes = set_diff (py_set previous_entry_hashes) (py_set current_entry_hashes);
          to_delete_entry_hashes = set_inter (py_set previous_entry_hashes) (py_set deletion_entry_hashes)
      in (if deletion_filenames \<noteq> None
          then (if length deletion_entry_hashes = 0
                then set_union existing_entry_hashes remaining_entry_hashes
                else set_diff (py_set previous_entry_hashes) to_delete_entry_hashes)
          else existing_entry_hashes))"

definition mark_entries_for_update ::
  "(string \<Rightarrow> hashv) \<Rightarrow> entry list \<Rightarrow> entry list \<Rightarrow> entry_key \<Rightarrow> string list option
     \<Rightarrow> py_error + (int \<times> entry) list" where
  "mark_entries_for_update md5 current_entries previous_entries key deletion_filenames =
     (let current_entry_hashes = map (hash_func md5 key) current_entries;
          previous_entry_hashes = map (hash_func md5 key) previous_entries;
          hash_to_current_entries = py_dict (zip current_entry_hashes current_entries);
          hash_to_previous_entries = py_dict (zip previous_entry_hashes previous_entries);
          new_entry_hashes = set_diff (py_set current_entry_hashes) (py_set previous_entry_hashes);
          preserving_entry_hashes =
            preserving_hashes md5 current_entries previous_entries key deletion_filenames
      in bind_err (index_entries current_entry_hashes hash_to_current_entries new_entry_hashes)
           (\<lambda>new_entries.
              let new_entries_sorted = map (\<lambda>entry. (- 1, snd entry)) (sort_key fst new_entries)
              in bind_err (index_entries previous_entry_hashes hash_to_previous_entries preserving_entry_hashes)
                   (\<lambda>existing_entries.
                      let existing_entries_sorted = sort_key fst existing_entries
                      in Inr (existing_entries_sorted @ new_entries_sorted))))"

section \<open>The embedding store\<close>

text \<open>
  Modelled from the spec: the models \<open>Embeddings\<close> and \<open>EmbeddingsDates\<close> of
  \<open>database.models\<close>, which the sources only import. A row of \<open>Embeddings\<close>
  has the fields that \<open>update_embeddings\<close> sets when it builds one; a row of
  \<open>EmbeddingsDates\<close> holds a date and the row it was extracted from. The vector
  type \<open>'v\<close> and the date type \<open>'d\<close> are opaque to the updater.
\<close>

type_synonym khoj_user = "nat option"

record 'v embeddings_row =
  user :: khoj_user
  embeddings :: 'v
  emb_raw :: string
  emb_compiled :: string
  emb_heading :: string
  file_path :: string
  file_type :: string
  hashed_value :: hashv
  emb_corpus_id :: "uuid option"

record ('v, 'd) embeddings_dates_row =
  date :: 'd
  dates_embeddings :: "'v embeddings_row"

text \<open>
  The state a run acts on: the two tables, and a log of the calls made to the
  two collaborators whose use the properties below speak about, the arguments of every
  \<open>embed_documents\<close> call and of every \<open>Embeddings.objects.bulk_create\<close> call,
  oldest first.
\<close>

record ('v, 'd) world =
  embeddings_objects :: "'v embeddings_row list"
  embeddings_dates_objects :: "('v, 'd) embeddings_dates_row list"
  embed_documents_calls :: "string list list"
  bulk_create_calls :: "'v embeddings_row list list"

text \<open>
  \<open>Embeddings.objects.filter(user=user, hashed_value__in=hashes, file_type=file_type)\<close>.
\<close>

definition filter_existing :: "khoj_user \<Rightarrow> hashv list \<Rightarrow> string \<Rightarrow> ('v, 'd) world \<Rightarrow> 'v embeddings_row list" where
  "filter_existing usr hashes ftype w =
     filter (\<lambda>r. user r = usr \<and> hashed_value r \<in> set hashes \<and> file_type r = ftype)
       (embeddings_objects w)"

text \<open>\<open>Embeddings.objects.bulk_create(rows)\<close> inserts the rows and returns them.\<close>

definition bulk_create :: "'v embeddings_row list \<Rightarrow> ('v, 'd) world \<Rightarrow> ('v, 'd) world" where
  "bulk_create rows w =
     w \<lparr> embeddings_objects := embeddings_objects w @ rows,
         bulk_create_calls := bulk_create_calls w @ [rows] \<rparr>"

definition dates_bulk_create :: "('v, 'd) embeddings_dates_row list \<Rightarrow> ('v, 'd) world \<Rightarrow> ('v, 'd) world" where
  "dates_bulk_create rows w =
     w \<lparr> embeddings_dates_objects := embeddings_dates_objects w @ rows \<rparr>"

text \<open>
  Modelled from the spec: deleting the rows a query selects, as the adapters of
  \<open>database.adapters\<close> do (only their calls are in the sources). The date rows
  of a deleted row go with it; the count is that of the deleted \<open>Embeddings\<close>
  rows.
\<close>

definition delete_where :: "('v embeddings_row \<Rightarrow> bool) \<Rightarrow> ('v, 'd) world \<Rightarrow> ('v, 'd) world \<times> nat" where
  "delete_where P w =
     (w \<lparr> embeddings_objects := filter (\<lambda>r. \<not> P r) (embeddings_objects w),
          embeddings_dates_objects :=
            filter (\<lambda>d. \<not> P (dates_embeddings d)) (embeddings_dates_objects w) \<rparr>,
      length (filter P (embeddings_objects w)))"

text \<open>
  Modelled from the spec: \<open>EmbeddingsAdapters.delete_all_embeddings(user, file_type)\<close>,
  the bulk deletion of all records of an owner and content type.
\<close>

definition delete_all_embeddings :: "khoj_user \<Rightarrow> string \<Rightarrow> ('v, 'd) world \<Rightarrow> ('v, 'd) world \<times> nat" where
  "delete_all_embeddings usr ftype w =
     delete_where (\<lambda>r. user r = usr \<and> file_type r = ftype) w"

text \<open>
  Modelled from the spec: \<open>EmbeddingsAdapters.get_existing_entry_hashes_by_file(user, file)\<close>,
  the hashes of the owner's records stored for the file.
\<close>

definition get_existing_entry_hashes_by_file :: "khoj_user \<Rightarrow> string \<Rightarrow> ('v, 'd) world \<Rightarrow> hashv list" where
  "get_existing_entry_hashes_by_file usr f w =
     map hashed_value (filter (\<lambda>r. user r = usr \<and> file_path r = f) (embeddings_objects w))"

text \<open>
  Modelled from the spec: \<open>EmbeddingsAdapters.delete_embedding_by_hash(user, hashed_values)\<close>.
  It is given the owner and the hashes only: every record of the owner with one
  of the hashes is deleted.
\<close>

definition delete_embedding_by_hash :: "khoj_user \<Rightarrow> hashv list \<Rightarrow> ('v, 'd) world \<Rightarrow> ('v, 'd) world" where
  "delete_embedding_by_hash usr hashed_values w =
     fst (delete_where (\<lambda>r. user r = usr \<and> hashed_value r \<in> set hashed_values) w)"

text \<open>
  Modelled from the spec: \<open>EmbeddingsAdapters.delete_embedding_by_file(user, file_path)\<close>,
  which deletes all records of the owner for the file and returns their number.
\<close>

definition delete_embedding_by_file :: "khoj_user \<Rightarrow> string \<Rightarrow> ('v, 'd) world \<Rightarrow> ('v, 'd) world \<times> nat" where
  "delete_embedding_by_file usr f w =
     delete_where (\<lambda>r. user r = usr \<and> file_path r = f) w"

section \<open>The index updater: \<open>TextEmbeddings.update_embeddings\<close>\<close>

text \<open>
  The local function \<open>grouper\<close>: \<open>max_n\<close> references to one iterator, zipped.
  Each round takes the next \<open>max_n\<close> items; the padding of the last round is
  filtered out again. No reference at all (\<open>max_n = 0\<close>) gives no round.
\<close>

function grouper :: "'a list \<Rightarrow> nat \<Rightarrow> 'a list list" where
  "grouper xs max_n =
     (if max_n = 0 \<or> xs = [] then []
      else take max_n xs # grouper (drop max_n xs) max_n)"
  by pat_completeness auto
termination
  by (relation "measure (\<lambda>(xs, max_n). length xs)") auto

text \<open>The first loop: the hashes of every file, files in the order they first occur.\<close>

definition hashes_by_file_of :: "(string \<Rightarrow> hashv) \<Rightarrow> entry_key \<Rightarrow> entry list \<Rightarrow> (string \<times> hashv list) list" where
  "hashes_by_file_of md5 key current_entries =
     foldl (\<lambda>d e. setdefault_add d (file e) (hash_func md5 key e)) [] current_entries"

text \<open>The row built for one hash and its vector.\<close>

definition new_embedding :: "khoj_user \<Rightarrow> string \<Rightarrow> hashv \<Rightarrow> 'v \<Rightarrow> entry \<Rightarrow> 'v embeddings_row" where
  "new_embedding usr ftype hashed_val embedding e =
     \<lparr> user = usr, embeddings = embedding, emb_raw = raw e, emb_compiled = compiled e,
       emb_heading = take 1000 (heading e), file_path = file e, file_type = ftype,
       hashed_value = hashed_val, emb_corpus_id = corpus_id e \<rparr>"

text \<open>
  The loop over the batches of one file: build the rows of the batch, insert
  them, count them, and insert a date row for every date that the collaborator
  \<open>extract_dates\<close> finds in the raw text of a new row.
\<close>

fun create_batches ::
  "(string \<Rightarrow> 'd list) \<Rightarrow> khoj_user \<Rightarrow> string \<Rightarrow> (hashv \<rightharpoonup> entry) \<Rightarrow> (hashv \<times> 'v) list list
     \<Rightarrow> ('v, 'd) world \<Rightarrow> nat \<Rightarrow> ('v, 'd) world \<times> (py_error + nat)" where
  "create_batches extract_dates usr ftype hash_to_current_entries [] w num_new_embeddings =
     (w, Inr num_new_embeddings)"
| "create_batches extract_dates usr ftype hash_to_current_entries (batch_zipped_vals # rest) w num_new_embeddings =
     (case map_err (\<lambda>(hashed_val, embedding).
             bind_err (dict_get hash_to_current_entries hashed_val)
               (\<lambda>e. Inr (new_embedding usr ftype hashed_val embedding e))) batch_zipped_vals of
        Inl err \<Rightarrow> (w, Inl err)
      | Inr batch_embeddings_to_create \<Rightarrow>
          (let w1 = bulk_create batch_embeddings_to_create w;
               new_embeddings = batch_embeddings_to_create;
               dates_to_create =
                 concat (map (\<lambda>embedding.
                    map (\<lambda>d. \<lparr> date = d, dates_embeddings = embedding \<rparr>)
                      (extract_dates (emb_raw embedding))) new_embeddings);
               w2 = dates_bulk_create dates_to_create w1
           in create_batches extract_dates usr ftype hash_to_current_entries rest w2
                (num_new_embeddings + length new_embeddings)))"

text \<open>
  The body of the loop over the files, for one file: select the hashes that
  have no record yet, embed their texts in one call, check the number of
  vectors, and create the records batch by batch.
\<close>

definition hashes_to_process_of :: "khoj_user \<Rightarrow> string \<Rightarrow> hashv list \<Rightarrow> ('v, 'd) world \<Rightarrow> hashv list" where
  "hashes_to_process_of usr ftype hashes_for_file w =
     (let existing_entries = filter_existing usr hashes_for_file ftype w;
          existing_entry_hashes = py_set (map hashed_value existing_entries)
      in set_diff hashes_for_file existing_entry_hashes)"

definition process_file ::
  "(string list \<Rightarrow> 'v list) \<Rightarrow> (string \<Rightarrow> 'd list) \<Rightarrow> khoj_user \<Rightarrow> string \<Rightarrow> entry_key
     \<Rightarrow> (hashv \<rightharpoonup> entry) \<Rightarrow> hashv list \<Rightarrow> ('v, 'd) world \<Rightarrow> nat
     \<Rightarrow> ('v, 'd) world \<times> (py_error + nat)" where
  "process_file embed_documents extract_dates usr ftype key hash_to_current_entries hashes_for_file w num_new_embeddings =
     (let hashes_to_process = hashes_to_process_of usr ftype hashes_for_file w
      in case map_err (dict_get hash_to_current_entries) hashes_to_process of
           Inl err \<Rightarrow> (w, Inl err)
         | Inr entries_to_process \<Rightarrow>
             (let data_to_embed = map (\<lambda>e. getattr e key) entries_to_process;
                  embeddings = embed_documents data_to_embed;
                  w1 = w \<lparr> embed_documents_calls := embed_documents_calls w @ [data_to_embed] \<rparr>;
                  num_items = length hashes_to_process
              in if num_items \<noteq> length embeddings then (w1, Inl AssertionError)
                 else create_batches extract_dates usr ftype hash_to_current_entries
                        (grouper (zip hashes_to_process embeddings) (min 200 num_items))
                        w1 num_new_embeddings))"

fun process_files ::
  "(string list \<Rightarrow> 'v list) \<Rightarrow> (string \<Rightarrow> 'd list) \<Rightarrow> khoj_user \<Rightarrow> string \<Rightarrow> entry_key
     \<Rightarrow> (hashv \<rightharpoonup> entry) \<Rightarrow> (string \<times> hashv list) list \<Rightarrow> ('v, 'd) world \<Rightarrow> nat
     \<Rightarrow> ('v, 'd) world \<times> (py_error + nat)" where
  "process_files embed_documents extract_dates usr ftype key hash_to_current_entries [] w num_new_embeddings =
     (w, Inr num_new_embeddings)"
| "process_files embed_documents extract_dates usr ftype key hash_to_current_entries ((f, hashes_for_file) # rest) w num_new_embeddings =
     (case process_file embed_documents extract_dates usr ftype key hash_to_current_entries
             hashes_for_file w num_new_embeddings of
        (w', Inl err) \<Rightarrow> (w', Inl err)
      | (w', Inr n) \<Rightarrow>
          process_files embed_documents extract_dates usr ftype key hash_to_current_entries rest w' n)"

text \<open>
  The stale-hash pass. For one file: the hashes stored for the file that the
  file no longer has, their number, and their deletion.
\<close>

definition to_delete_entry_hashes_of :: "khoj_user \<Rightarrow> string \<Rightarrow> hashv list \<Rightarrow> ('v, 'd) world \<Rightarrow> hashv list" where
  "to_delete_entry_hashes_of usr f hashes_for_file w =
     (let existing_entry_hashes = get_existing_entry_hashes_by_file usr f w
      in set_diff (py_set existing_entry_hashes) hashes_for_file)"

definition delete_stale_file :: "khoj_user \<Rightarrow> string \<Rightarrow> hashv list \<Rightarrow> ('v, 'd) world \<Rightarrow> nat \<Rightarrow> ('v, 'd) world \<times> nat" where
  "delete_stale_file usr f hashes_for_file w num_deleted_embeddings =
     (let to_delete_entry_hashes = to_delete_entry_hashes_of usr f hashes_for_file w
      in (delete_embedding_by_hash usr to_delete_entry_hashes w,
          num_deleted_embeddings + length to_delete_entry_hashes))"

text \<open>The pass over all files of the run.\<close>

fun delete_stale :: "khoj_user \<Rightarrow> (string \<times> hashv list) list \<Rightarrow> ('v, 'd) world \<Rightarrow> nat \<Rightarrow> ('v, 'd) world \<times> nat" where
  "delete_stale usr [] w num_deleted_embeddings = (w, num_deleted_embeddings)"
| "delete_stale usr ((f, hashes_for_file) # rest) w num_deleted_embeddings =
     (case delete_stale_file usr f hashes_for_file w num_deleted_embeddings of
        (w', n) \<Rightarrow> delete_stale usr rest w' n)"

text \<open>The pass over \<open>deletion_filenames\<close>.\<close>

fun delete_files :: "khoj_user \<Rightarrow> string list \<Rightarrow> ('v, 'd) world \<Rightarrow> nat \<Rightarrow> ('v, 'd) world \<times> nat" where
  "delete_files usr [] w num_deleted_embeddings = (w, num_deleted_embeddings)"
| "delete_files usr (fp # rest) w num_deleted_embeddings =
     (case delete_embedding_by_file usr fp w of
        (w', deleted_count) \<Rightarrow> delete_files usr rest w' (num_deleted_embeddings + deleted_count))"

text \<open>
  The whole run. The result pairs the state the run leaves behind with what the
  call gives back: the two counts, or the exception that ended it. The timers,
  the progress bars and the logger (which the caller passes) have no part in
  either.
\<close>

definition update_embeddings ::
  "(string \<Rightarrow> hashv) \<Rightarrow> (string list \<Rightarrow> 'v list) \<Rightarrow> (string \<Rightarrow> 'd list)
     \<Rightarrow> entry list \<Rightarrow> string \<Rightarrow> entry_key \<Rightarrow> string list option \<Rightarrow> khoj_user \<Rightarrow> bool
     \<Rightarrow> ('v, 'd) world \<Rightarrow> ('v, 'd) world \<times> (py_error + nat \<times> nat)" where
  "update_embeddings md5 embed_documents extract_dates current_entries ftype key deletion_filenames usr regenerate w =
     (let hashes_by_file = hashes_by_file_of md5 key current_entries;
          current_entry_hashes = map (hash_func md5 key) current_entries;
          hash_to_current_entries = py_dict (zip current_entry_hashes current_entries);
          (w0, num_deleted0) =
            (if regenerate then delete_all_embeddings usr ftype w else (w, 0))
      in case process_files embed_documents extract_dates usr ftype key hash_to_current_entries
                hashes_by_file w0 0 of
           (w1, Inl err) \<Rightarrow> (w1, Inl err)
         | (w1, Inr num_new_embeddings) \<Rightarrow>
             (case delete_stale usr hashes_by_file w1 num_deleted0 of
                (w2, num_deleted1) \<Rightarrow>
                  (case (case deletion_filenames of
                           None \<Rightarrow> (w2, num_deleted1)
                         | Some fps \<Rightarrow> delete_files usr fps w2 num_deleted1) of
                     (w3, num_deleted_embeddings) \<Rightarrow>
                       (w3, Inr (num_new_embeddings, num_deleted_embeddings)))))"

section \<open>Notions used to state the properties\<close>

text \<open>The first position of \<open>x\<close> in \<open>xs\<close>, for an \<open>x\<close> that occurs there.\<close>

definition first_index :: "'a list \<Rightarrow> 'a \<Rightarrow> nat" where
  "first_index xs x = length (takeWhile (\<lambda>y. y \<noteq> x) xs)"

text \<open>The entry a dictionary built by \<open>dict(zip(hashes, entries))\<close> holds for a hash: the last one with it.\<close>

definition entry_for :: "('e \<Rightarrow> 'h) \<Rightarrow> 'e list \<Rightarrow> 'h \<Rightarrow> 'e" where
  "entry_for f es h = last (filter (\<lambda>e. f e = h) es)"

text \<open>The hashes \<open>hs\<close>, each paired with its index and its entry, sorted by the index.\<close>

definition indexed :: "('e \<Rightarrow> 'h) \<Rightarrow> 'e list \<Rightarrow> 'h list \<Rightarrow> (int \<times> 'e) list" where
  "indexed f es hs = sort_key fst (map (\<lambda>h. (int (first_index (map f es) h), entry_for f es h)) hs)"

text \<open>\<open>a\<close> occurs in \<open>xs\<close> and so does \<open>b\<close>, and \<open>xs.index(a) < xs.index(b)\<close>.\<close>

definition index_less :: "'a list \<Rightarrow> 'a \<Rightarrow> 'a \<Rightarrow> bool" where
  "index_less xs a b =
     (case (py_index xs a, py_index xs b) of (Inr i, Inr j) \<Rightarrow> i < j | _ \<Rightarrow> False)"

text \<open>The rows built from a list of (hash, vector) pairs, as the loop over a batch builds them.\<close>

definition rows_for :: "khoj_user \<Rightarrow> string \<Rightarrow> (hashv \<rightharpoonup> entry) \<Rightarrow> (hashv \<times> 'v) list \<Rightarrow> 'v embeddings_row list" where
  "rows_for usr ftype h2c zs = map (\<lambda>(h, v). new_embedding usr ftype h v (the (h2c h))) zs"

text \<open>The texts handed to \<open>embed_documents\<close> for a list of hashes.\<close>

definition data_to_embed_of :: "entry_key \<Rightarrow> (hashv \<rightharpoonup> entry) \<Rightarrow> hashv list \<Rightarrow> string list" where
  "data_to_embed_of key h2c hs = map (\<lambda>h. getattr (the (h2c h)) key) hs"

text \<open>
  What holds of the rows a run creates, given the rows \<open>old\<close> stored before: one row
  per hash, each built from the entry the dictionary holds for its hash, and
  none for a hash that the owner already had a record of under the content type.
\<close>

definition created_rows_ok :: "khoj_user \<Rightarrow> string \<Rightarrow> (hashv \<rightharpoonup> entry) \<Rightarrow> 'v embeddings_row list \<Rightarrow> 'v embeddings_row list \<Rightarrow> bool" where
  "created_rows_ok usr ftype h2c old rows \<longleftrightarrow>
     distinct (map hashed_value rows) \<and>
     (\<forall>r \<in> set rows.
        user r = usr \<and> file_type r = ftype \<and> hashed_value r \<in> dom h2c \<and>
        r = new_embedding usr ftype (hashed_value r) (embeddings r) (the (h2c (hashed_value r))) \<and>
        \<not> (\<exists>r' \<in> set old. user r' = usr \<and> file_type r' = ftype \<and> hashed_value r' = hashed_value r))"

text \<open>The state in which the creation phase starts: after the deletion that \<open>regenerate\<close> asks for.\<close>

definition start_world :: "khoj_user \<Rightarrow> string \<Rightarrow> bool \<Rightarrow> ('v, 'd) world \<Rightarrow> ('v, 'd) world" where
  "start_world usr ftype regenerate w =
     (if regenerate then fst (delete_all_embeddings usr ftype w) else w)"

text \<open>The run up to the end of the loop over the files.\<close>

definition creation_phase ::
  "(string \<Rightarrow> hashv) \<Rightarrow> (string list \<Rightarrow> 'v list) \<Rightarrow> (string \<Rightarrow> 'd list)
     \<Rightarrow> entry list \<Rightarrow> string \<Rightarrow> entry_key \<Rightarrow> khoj_user \<Rightarrow> bool
     \<Rightarrow> ('v, 'd) world \<Rightarrow> ('v, 'd) world \<times> (py_error + nat)" where
  "creation_phase md5 emb exd es ftype key usr regenerate w =
     process_files emb exd usr ftype key
       (py_dict (zip (map (hash_func md5 key) es) es))
       (hashes_by_file_of md5 key es) (start_world usr ftype regenerate w) 0"

text \<open>No record of the owner is stored for a file of the run under a hash the file does not have.\<close>

definition no_stale :: "khoj_user \<Rightarrow> (string \<times> hashv list) list \<Rightarrow> 'v embeddings_row list \<Rightarrow> bool" where
  "no_stale usr files rows \<longleftrightarrow>
     (\<forall>(f, hs) \<in> set files. \<forall>r \<in> set rows.
        user r = usr \<and> file_path r = f \<longrightarrow> hashed_value r \<in> set hs)"

text \<open>The members of the set a dictionary of sets holds for a key, none when the key is missing.\<close>

definition members_of :: "('k \<times> 'v list) list \<Rightarrow> 'k \<Rightarrow> 'v set" where
  "members_of d k = (case map_of d k of None \<Rightarrow> {} | Some s \<Rightarrow> set s)"

text \<open>Every hash of \<open>hs\<close> has a record of the owner under the content type.\<close>

definition all_recorded :: "khoj_user \<Rightarrow> string \<Rightarrow> hashv set \<Rightarrow> 'v embeddings_row list \<Rightarrow> bool" where
  "all_recorded usr ftype hs rows \<longleftrightarrow>
     (\<forall>h \<in> hs. \<exists>r \<in> set rows. user r = usr \<and> file_type r = ftype \<and> hashed_value r = h)"

text \<open>
  The store holds at most one record for an owner, a content type and a hash.
\<close>

definition unique_records :: "'v embeddings_row list \<Rightarrow> bool" where
  "unique_records rows \<longleftrightarrow> distinct (map (\<lambda>r. (user r, file_type r, hashed_value r)) rows)"

section \<open>Properties of the chunker\<close>

lemma bind_err_Inr_iff:
  "bind_err m f = Inr y \<longleftrightarrow> (\<exists>v. m = Inr v \<and> f v = Inr y)"
  by (cases m) (simp_all add: bind_err_def)

lemma py_range0_Inr:
  assumes "py_range0 stop step = Inr idxs" and "i \<in> set idxs"
  shows "0 < step \<and> i < stop"
proof -
  from assms have pos: "0 < step"
    by (auto simp: py_range0_def split: if_splits)
  let ?s = "nat step"
  from pos have s: "0 < ?s" by simp
  from assms pos obtain k where k: "k < (stop + ?s - 1) div ?s" and i: "i = k * ?s"
    by (auto simp: py_range0_def split: if_splits)
  from k have "Suc k \<le> (stop + ?s - 1) div ?s" by simp
  with s have "Suc k * ?s \<le> stop + ?s - 1"
    by (simp only: less_eq_div_iff_mult_less_eq)
  with s i have "i < stop" by simp
  with pos show ?thesis by simp
qed

lemma py_join_nonempty: "ws \<noteq> [] \<Longrightarrow> hd ws \<noteq> [] \<Longrightarrow> py_join sep ws \<noteq> []"
  by (induction sep ws rule: py_join.induct) simp_all

lemma compiled_entry_words_nonempty:
  "w \<in> set (compiled_entry_words max_word_length e) \<Longrightarrow> w \<noteq> []"
  by (auto simp: compiled_entry_words_def)

lemma entry_chunk_compiled_nonempty:
  assumes "0 < max_tokens" and "i < length ws" and "\<forall>w \<in> set ws. w \<noteq> []"
  shows "compiled (entry_chunk max_tokens cid e ws i) \<noteq> []"
proof (cases "i > 0")
  case True
  then show ?thesis by (simp add: entry_chunk_def Let_def)
next
  case False
  then have i0: "i = 0" by simp
  from assms i0 have ne: "ws \<noteq> []" by auto
  with assms(1) have "take (nat max_tokens) ws \<noteq> []" by simp
  moreover from ne assms(1) have "hd (take (nat max_tokens) ws) = hd ws"
    by (cases ws) (auto simp: take_Suc_conv_app_nth dest: gr0_implies_Suc)
  moreover from ne assms(3) have "hd ws \<noteq> []" by (cases ws) auto
  ultimately have "py_join '' '' (take (nat max_tokens) ws) \<noteq> []"
    by (simp add: py_join_nonempty)
  with i0 show ?thesis by (simp add: entry_chunk_def Let_def)
qed

lemma entry_chunks_compiled_nonempty:
  assumes "entry_chunks max_tokens max_word_length cid e = Inr cs" and "c \<in> set cs"
  shows "compiled c \<noteq> []"
proof -
  let ?ws = "compiled_entry_words max_word_length e"
  from assms(1) obtain idxs where r: "py_range0 (length ?ws) max_tokens = Inr idxs"
    and cs: "cs = map (entry_chunk max_tokens cid e ?ws) idxs"
    by (auto simp: entry_chunks_def Let_def bind_err_Inr_iff)
  from assms(2) cs obtain i where i: "i \<in> set idxs" and c: "c = entry_chunk max_tokens cid e ?ws i"
    by auto
  from py_range0_Inr [OF r i] have "0 < max_tokens" "i < length ?ws" by simp_all
  then show ?thesis
    unfolding c by (rule entry_chunk_compiled_nonempty) (simp add: compiled_entry_words_nonempty)
qed

lemma entry_chunks_corpus_id:
  assumes "entry_chunks max_tokens max_word_length cid e = Inr cs" and "c \<in> set cs"
  shows "corpus_id c = Some cid"
  using assms by (auto simp: entry_chunks_def Let_def bind_err_Inr_iff entry_chunk_def)

lemma entry_chunks_no_words:
  assumes "compiled_entry_words max_word_length e = []" and "max_tokens \<noteq> 0"
  shows "entry_chunks max_tokens max_word_length cid e = Inr []"
  using assms by (simp add: entry_chunks_def py_range0_def bind_err_def)

lemma split_entries_from_Inr:
  "split_entries_from uuid4 k es max_tokens max_word_length = Inr out \<Longrightarrow>
   \<exists>css. length css = length es \<and> out = concat css \<and>
     (\<forall>i < length es. entry_chunks max_tokens max_word_length (uuid4 (k + i)) (es ! i) = Inr (css ! i))"
proof (induction es arbitrary: k out)
  case Nil
  then show ?case by simp
next
  case (Cons e es)
  from Cons.prems obtain chunks rest where
    c: "entry_chunks max_tokens max_word_length (uuid4 k) e = Inr chunks" and
    r: "split_entries_from uuid4 (Suc k) es max_tokens max_word_length = Inr rest" and
    o: "out = chunks @ rest"
    by (auto simp: bind_err_Inr_iff)
  from Cons.IH [OF r] obtain css where css: "length css = length es" "rest = concat css"
    "\<forall>i < length es. entry_chunks max_tokens max_word_length (uuid4 (Suc k + i)) (es ! i) = Inr (css ! i)"
    by blast
  have "\<forall>i < length (e # es).
      entry_chunks max_tokens max_word_length (uuid4 (k + i)) ((e # es) ! i) = Inr ((chunks # css) ! i)"
  proof (intro allI impI)
    fix i assume "i < length (e # es)"
    then show "entry_chunks max_tokens max_word_length (uuid4 (k + i)) ((e # es) ! i) = Inr ((chunks # css) ! i)"
      using c css(3) by (cases i) simp_all
  qed
  with css o show ?case
    by (intro exI [of _ "chunks # css"]) simp
qed

text \<open>A run of the chunker on three entries, the second of which has no word of at most five characters.\<close>

lemma split_entries_example: "split_entries_by_max_tokens (\<lambda>k. k)
      [\<lparr> raw = ''a b c'', compiled = ''a b c'', heading = ''h'', file = ''f'', corpus_id = None \<rparr>,
       \<lparr> raw = ''  toolong '', compiled = ''  toolong '', heading = ''h2'', file = ''f'', corpus_id = None \<rparr>,
       \<lparr> raw = ''d'', compiled = ''d'', heading = ''h3'', file = ''g'', corpus_id = None \<rparr>] 2 5
    = Inr [\<lparr> raw = ''a b c'', compiled = ''a b'', heading = ''h'', file = ''f'', corpus_id = Some 0 \<rparr>,
           \<lparr> raw = ''a b c'', compiled = ''h.'' @ [CHR 0x0A] @ ''c'', heading = ''h'', file = ''f'', corpus_id = Some 0 \<rparr>,
           \<lparr> raw = ''d'', compiled = ''d'', heading = ''h3'', file = ''g'', corpus_id = Some 2 \<rparr>]"
  by code_simp

lemma py_range0_nonempty:
  assumes "0 < stop" and "0 < step"
  shows "\<exists>idxs. py_range0 stop step = Inr idxs \<and> idxs \<noteq> []"
proof -
  let ?s = "nat step"
  from assms have s: "0 < ?s" by simp
  from assms(1) have "?s \<le> stop + ?s - 1" by simp
  with s have "1 \<le> (stop + ?s - 1) div ?s"
    by (simp add: less_eq_div_iff_mult_less_eq)
  then have "[0 ..< (stop + ?s - 1) div ?s] \<noteq> []" by simp
  with assms(2) show ?thesis by (simp add: py_range0_def)
qed

lemma entry_chunks_empty_iff:
  assumes "entry_chunks max_tokens max_word_length cid e = Inr cs"
  shows "cs = [] \<longleftrightarrow> compiled_entry_words max_word_length e = [] \<or> max_tokens < 0"
proof -
  let ?ws = "compiled_entry_words max_word_length e"
  from assms obtain idxs where r: "py_range0 (length ?ws) max_tokens = Inr idxs"
    and cs: "cs = map (entry_chunk max_tokens cid e ?ws) idxs"
    by (auto simp: entry_chunks_def Let_def bind_err_Inr_iff)
  from r have nz: "max_tokens \<noteq> 0" by (auto simp: py_range0_def split: if_splits)
  show ?thesis
  proof (cases "?ws = [] \<or> max_tokens < 0")
    case True
    with r nz have "idxs = []" by (auto simp: py_range0_def split: if_splits)
    with cs True show ?thesis by simp
  next
    case False
    then have "0 < length ?ws" "0 < max_tokens" using nz by simp_all
    from py_range0_nonempty [OF this] r have "idxs \<noteq> []" by auto
    with cs False show ?thesis by simp
  qed
qed

text \<open>
  C9 (non-empty chunks), with the split as the code makes it. Whenever the
  chunker returns, no returned entry has an empty \<open>compiled\<close> field. The
  returned list is the concatenation of one list of chunks per input entry, and
  an input entry contributes the empty list exactly when its text has no word
  left after the split at the space character and the word-length filter (or
  \<open>max_tokens\<close> is negative, when no entry contributes a chunk).
\<close>

theorem split_entries_nonempty_chunks:
  assumes "split_entries_by_max_tokens uuid4 entries max_tokens max_word_length = Inr chunked_entries"
  shows "(\<forall>c \<in> set chunked_entries. compiled c \<noteq> []) \<and>
    (\<exists>css. length css = length entries \<and> chunked_entries = concat css \<and>
       (\<forall>i < length entries.
          entry_chunks max_tokens max_word_length (uuid4 i) (entries ! i) = Inr (css ! i) \<and>
          (css ! i = [] \<longleftrightarrow>
             compiled_entry_words max_word_length (entries ! i) = [] \<or> max_tokens < 0)))"
proof -
  from assms obtain css where css: "length css = length entries" "chunked_entries = concat css"
    and each: "\<forall>i < length entries.
      entry_chunks max_tokens max_word_length (uuid4 i) (entries ! i) = Inr (css ! i)"
    using split_entries_from_Inr [of uuid4 0 entries max_tokens max_word_length chunked_entries]
    by (auto simp: split_entries_by_max_tokens_def)
  have ne: "\<forall>c \<in> set chunked_entries. compiled c \<noteq> []"
  proof
    fix c assume "c \<in> set chunked_entries"
    with css obtain cs where "cs \<in> set css" and ccs: "c \<in> set cs" by auto
    with css obtain i where i: "i < length entries" and "css ! i = cs"
      by (auto simp: in_set_conv_nth)
    with ccs have c: "c \<in> set (css ! i)" by simp
    from each i have "entry_chunks max_tokens max_word_length (uuid4 i) (entries ! i) = Inr (css ! i)"
      by simp
    from entry_chunks_compiled_nonempty [OF this c] show "compiled c \<noteq> []" .
  qed
  have emp: "\<forall>i < length entries.
      entry_chunks max_tokens max_word_length (uuid4 i) (entries ! i) = Inr (css ! i) \<and>
      (css ! i = [] \<longleftrightarrow>
         compiled_entry_words max_word_length (entries ! i) = [] \<or> max_tokens < 0)"
  proof (intro allI impI)
    fix i assume i: "i < length entries"
    with each have ec: "entry_chunks max_tokens max_word_length (uuid4 i) (entries ! i) = Inr (css ! i)"
      by simp
    from ec entry_chunks_empty_iff [OF ec]
    show "entry_chunks max_tokens max_word_length (uuid4 i) (entries ! i) = Inr (css ! i) \<and>
      (css ! i = [] \<longleftrightarrow>
         compiled_entry_words max_word_length (entries ! i) = [] \<or> max_tokens < 0)"
      by (rule conjI)
  qed
  from ne css emp show ?thesis by blast
qed

theorem split_entries_nonempty_chunks_witness:
  "let entries =
         [\<lparr> raw = ''a b c'', compiled = ''a b c'', heading = ''h'', file = ''f'', corpus_id = None \<rparr>,
          \<lparr> raw = ''  toolong '', compiled = ''  toolong '', heading = ''h2'', file = ''f'', corpus_id = None \<rparr>,
          \<lparr> raw = ''d'', compiled = ''d'', heading = ''h3'', file = ''g'', corpus_id = None \<rparr>];
       chunked_entries =
         [\<lparr> raw = ''a b c'', compiled = ''a b'', heading = ''h'', file = ''f'', corpus_id = Some 0 \<rparr>,
          \<lparr> raw = ''a b c'', compiled = ''h.'' @ [CHR 0x0A] @ ''c'', heading = ''h'', file = ''f'', corpus_id = Some 0 \<rparr>,
          \<lparr> raw = ''d'', compiled = ''d'', heading = ''h3'', file = ''g'', corpus_id = Some 2 \<rparr>]
   in split_entries_by_max_tokens (\<lambda>k. k) entries 2 5 = Inr chunked_entries \<and>
      compiled_entry_words 5 (entries ! 1) = [] \<and>
      compiled_entry_words 5 (entries ! 2) = [''d''] \<and>
      list_all (\<lambda>c. compiled c \<noteq> []) chunked_entries \<and>
      (\<exists>css. length css = length entries \<and> chunked_entries = concat css \<and>
         css ! 1 = [] \<and> css ! 2 \<noteq> [])"
proof -
  let ?es = "[\<lparr> raw = ''a b c'', compiled = ''a b c'', heading = ''h'', file = ''f'', corpus_id = None \<rparr>,
          \<lparr> raw = ''  toolong '', compiled = ''  toolong '', heading = ''h2'', file = ''f'', corpus_id = None \<rparr>,
          \<lparr> raw = ''d'', compiled = ''d'', heading = ''h3'', file = ''g'', corpus_id = None \<rparr>]"
  let ?out = "[\<lparr> raw = ''a b c'', compiled = ''a b'', heading = ''h'', file = ''f'', corpus_id = Some (0::nat) \<rparr>,
          \<lparr> raw = ''a b c'', compiled = ''h.'' @ [CHR 0x0A] @ ''c'', heading = ''h'', file = ''f'', corpus_id = Some 0 \<rparr>,
          \<lparr> raw = ''d'', compiled = ''d'', heading = ''h3'', file = ''g'', corpus_id = Some 2 \<rparr>]"
  have w: "compiled_entry_words 5 (?es ! 1) = []"
    by code_simp
  have w2: "compiled_entry_words 5 (?es ! 2) = [''d'']"
    by code_simp
  have th: "(\<forall>c \<in> set ?out. compiled c \<noteq> []) \<and>
    (\<exists>css. length css = length ?es \<and> ?out = concat css \<and>
       (\<forall>i < length ?es.
          entry_chunks 2 5 i (?es ! i) = Inr (css ! i) \<and>
          (css ! i = [] \<longleftrightarrow> compiled_entry_words 5 (?es ! i) = [] \<or> (2 :: int) < 0)))"
    by (rule split_entries_nonempty_chunks [OF split_entries_example])
  then obtain css where css: "length css = length ?es" "?out = concat css"
    and e: "\<forall>i < length ?es. entry_chunks 2 5 i (?es ! i) = Inr (css ! i) \<and>
          (css ! i = [] \<longleftrightarrow> compiled_entry_words 5 (?es ! i) = [] \<or> (2 :: int) < 0)"
    by blast
  have "1 < length ?es" by simp
  with e have "css ! 1 = [] \<longleftrightarrow> compiled_entry_words 5 (?es ! 1) = [] \<or> (2 :: int) < 0"
    by blast
  with w have c1: "css ! 1 = []" by simp
  have "2 < length ?es" by simp
  with e have "css ! 2 = [] \<longleftrightarrow> compiled_entry_words 5 (?es ! 2) = [] \<or> (2 :: int) < 0"
    by blast
  then have c2: "css ! 2 \<noteq> []" unfolding w2 by simp
  from css c1 c2 have ex: "\<exists>css. length css = length ?es \<and> ?out = concat css \<and>
      css ! 1 = [] \<and> css ! 2 \<noteq> []"
    by blast
  from th have la: "list_all (\<lambda>c. compiled c \<noteq> []) ?out"
    unfolding list_all_iff by (rule conjunct1)
  show ?thesis
    unfolding Let_def by (intro conjI split_entries_example w w2 la ex)
qed

text \<open>
  With the split on whitespace the property fails: a text that is a single tab
  has no word after a split on whitespace, and the chunker returns one chunk
  for it, the tab being a word of the split at the space character.
\<close>

theorem split_entries_whitespace_only_chunk:
  "let e = \<lparr> raw = [CHR 0x09], compiled = [CHR 0x09], heading = ''h'', file = ''f'', corpus_id = None \<rparr>
   in spec_words_split_on_whitespace 500 e = [] \<and>
      compiled_entry_words 500 e = [[CHR 0x09]] \<and>
      split_entries_by_max_tokens (\<lambda>k. k) [e] 256 500 =
        Inr [\<lparr> raw = [CHR 0x09], compiled = [CHR 0x09], heading = ''h'', file = ''f'',
               corpus_id = Some 0 \<rparr>]"
  by code_simp

text \<open>
  C8 (shared corpus identity). When the \<open>uuid4\<close> values drawn during the run
  are pairwise different, two returned chunks carry the same \<open>corpus_id\<close>
  exactly when they derive from the same input entry.
\<close>

theorem split_entries_corpus_id_shared:
  assumes "inj_on uuid4 {..< length entries}"
    and "split_entries_by_max_tokens uuid4 entries max_tokens max_word_length = Inr chunked_entries"
  shows "\<exists>css. length css = length entries \<and> chunked_entries = concat css \<and>
     (\<forall>i < length entries.
        entry_chunks max_tokens max_word_length (uuid4 i) (entries ! i) = Inr (css ! i)) \<and>
     (\<forall>i < length entries. \<forall>j < length entries. \<forall>c \<in> set (css ! i). \<forall>d \<in> set (css ! j).
        (corpus_id c = corpus_id d) = (i = j))"
proof -
  from assms(2) obtain css where css: "length css = length entries" "chunked_entries = concat css"
    and each: "\<forall>i < length entries.
      entry_chunks max_tokens max_word_length (uuid4 i) (entries ! i) = Inr (css ! i)"
    using split_entries_from_Inr [of uuid4 0 entries max_tokens max_word_length chunked_entries]
    by (auto simp: split_entries_by_max_tokens_def)
  have "\<forall>i < length entries. \<forall>j < length entries. \<forall>c \<in> set (css ! i). \<forall>d \<in> set (css ! j).
        (corpus_id c = corpus_id d) = (i = j)"
  proof (intro allI impI ballI)
    fix i j c d
    assume i: "i < length entries" and j: "j < length entries"
      and c: "c \<in> set (css ! i)" and d: "d \<in> set (css ! j)"
    from each i c have ci: "corpus_id c = Some (uuid4 i)"
      by (auto dest: entry_chunks_corpus_id)
    from each j d have dj: "corpus_id d = Some (uuid4 j)"
      by (auto dest: entry_chunks_corpus_id)
    from assms(1) i j have "(uuid4 i = uuid4 j) = (i = j)"
      by (auto simp: inj_on_def)
    with ci dj show "(corpus_id c = corpus_id d) = (i = j)" by simp
  qed
  with css each show ?thesis by blast
qed

theorem split_entries_corpus_id_shared_witness:
  "let entries =
         [\<lparr> raw = ''a b c'', compiled = ''a b c'', heading = ''h'', file = ''f'', corpus_id = None \<rparr>,
          \<lparr> raw = ''  toolong '', compiled = ''  toolong '', heading = ''h2'', file = ''f'', corpus_id = None \<rparr>,
          \<lparr> raw = ''d'', compiled = ''d'', heading = ''h3'', file = ''g'', corpus_id = None \<rparr>];
       chunked_entries =
         [\<lparr> raw = ''a b c'', compiled = ''a b'', heading = ''h'', file = ''f'', corpus_id = Some 0 \<rparr>,
          \<lparr> raw = ''a b c'', compiled = ''h.'' @ [CHR 0x0A] @ ''c'', heading = ''h'', file = ''f'', corpus_id = Some 0 \<rparr>,
          \<lparr> raw = ''d'', compiled = ''d'', heading = ''h3'', file = ''g'', corpus_id = Some 2 \<rparr>]
   in inj_on (\<lambda>k::nat. k) {..< length entries} \<and>
      split_entries_by_max_tokens (\<lambda>k. k) entries 2 5 = Inr chunked_entries \<and>
      (\<exists>css. length css = length entries \<and> chunked_entries = concat css \<and>
        (\<forall>i < length entries. entry_chunks 2 5 i (entries ! i) = Inr (css ! i)) \<and>
        (\<forall>i < length entries. \<forall>j < length entries. \<forall>c \<in> set (css ! i). \<forall>d \<in> set (css ! j).
           (corpus_id c = corpus_id d) = (i = j)))"
proof -
  let ?es = "[\<lparr> raw = ''a b c'', compiled = ''a b c'', heading = ''h'', file = ''f'', corpus_id = None \<rparr>,
          \<lparr> raw = ''  toolong '', compiled = ''  toolong '', heading = ''h2'', file = ''f'', corpus_id = None \<rparr>,
          \<lparr> raw = ''d'', compiled = ''d'', heading = ''h3'', file = ''g'', corpus_id = None \<rparr>]"
  have i: "inj_on (\<lambda>k::nat. k) {..< length ?es}"
    by (rule inj_on_id2)
  show ?thesis
    unfolding Let_def
    by (intro conjI i split_entries_example split_entries_corpus_id_shared [OF i split_entries_example])
qed

text \<open>When the chunker returns: for every \<open>max_tokens\<close> but zero, and on the empty list.\<close>

lemma entry_chunks_returns:
  "entry_chunks max_tokens max_word_length cid e =
     (if max_tokens = 0 then Inl ValueError
      else Inr (map (entry_chunk max_tokens cid e (compiled_entry_words max_word_length e))
                  (if max_tokens < 0 then []
                   else map (\<lambda>k. k * nat max_tokens)
                          [0 ..< (length (compiled_entry_words max_word_length e) + nat max_tokens - 1)
                                   div nat max_tokens])))"
  by (simp add: entry_chunks_def py_range0_def bind_err_def Let_def)

lemma split_entries_from_returns:
  "max_tokens \<noteq> 0 \<Longrightarrow> \<exists>out. split_entries_from uuid4 k es max_tokens max_word_length = Inr out"
proof (induction es arbitrary: k)
  case Nil
  then show ?case by simp
next
  case (Cons e es)
  from Cons.IH [OF Cons.prems, of "Suc k"] obtain rest where
    "split_entries_from uuid4 (Suc k) es max_tokens max_word_length = Inr rest" by blast
  with Cons.prems show ?case
    by (simp add: entry_chunks_returns bind_err_def)
qed

lemma split_entries_by_max_tokens_returns:
  "(\<exists>out. split_entries_by_max_tokens uuid4 entries max_tokens max_word_length = Inr out) \<longleftrightarrow>
   (max_tokens \<noteq> 0 \<or> entries = [])"
proof (cases "max_tokens = 0")
  case True
  then show ?thesis
    by (cases entries) (simp_all add: split_entries_by_max_tokens_def entry_chunks_returns bind_err_def)
next
  case False
  with split_entries_from_returns [of max_tokens uuid4 0 entries max_word_length] show ?thesis
    by (simp add: split_entries_by_max_tokens_def)
qed

text \<open>Splitting at spaces undoes joining by spaces, for words without a space.\<close>

lemma py_split_no_sep: "w \<in> set (py_split c s) \<Longrightarrow> c \<notin> set w"
proof (induction c s arbitrary: w rule: py_split.induct)
  case (1 sep)
  then show ?case by simp
next
  case (2 sep c cs)
  show ?case
  proof (cases "c = sep")
    case True
    with 2 show ?thesis by auto
  next
    case False
    then show ?thesis
    proof (cases "py_split sep cs")
      case Nil
      with 2 False show ?thesis by auto
    next
      case (Cons v vs)
      with 2 False show ?thesis by auto
    qed
  qed
qed

lemma py_split_append_word:
  "c \<notin> set w \<Longrightarrow> py_split c (w @ c # s) = w # py_split c s"
  by (induction w) auto

lemma py_split_word: "c \<notin> set w \<Longrightarrow> py_split c w = [w]"
  by (induction w) auto

lemma py_split_join:
  "ws \<noteq> [] \<Longrightarrow> \<forall>w \<in> set ws. c \<notin> set w \<Longrightarrow> py_split c (py_join [c] ws) = ws"
proof (induction "[c]" ws rule: py_join.induct)
  case 1
  then show ?case by simp
next
  case (2 w)
  then show ?case by (simp add: py_split_word)
next
  case (3 w v ws)
  then show ?case by (simp add: py_split_append_word)
qed

lemma compiled_entry_words_props:
  "w \<in> set (compiled_entry_words max_word_length e) \<Longrightarrow>
     CHR '' '' \<notin> set w \<and> int (length w) \<le> max_word_length"
  by (auto simp: compiled_entry_words_def dest: py_split_no_sep)

text \<open>
  What holds of the bound: the first chunk of an entry keeps it, and so does
  the part of a later chunk that follows the heading snippet.
\<close>

lemma entry_chunk_body_within_bounds:
  assumes "0 < max_tokens" and "i < length ws" and "ws = compiled_entry_words max_word_length e"
  shows "\<exists>body.
     compiled (entry_chunk max_tokens cid e ws i) =
       (if i > 0 then py_suffix 100 (heading e) @ [CHR ''.'', CHR 0x0A] @ body else body) \<and>
     int (length (py_split CHR '' '' body)) \<le> max_tokens \<and>
     (\<forall>w \<in> set (py_split CHR '' '' body). int (length w) \<le> max_word_length)"
proof -
  let ?chunk = "take (nat max_tokens) (drop i ws)"
  from assms have ne: "?chunk \<noteq> []" by simp
  have sub: "set ?chunk \<subseteq> set ws"
    by (meson in_set_dropD in_set_takeD subsetI)
  with assms(3) have p: "\<forall>w \<in> set ?chunk. CHR '' '' \<notin> set w"
    and l: "\<forall>w \<in> set ?chunk. int (length w) \<le> max_word_length"
    by (auto dest: compiled_entry_words_props)
  have s: "py_split CHR '' '' (py_join '' '' ?chunk) = ?chunk"
    using py_split_join [OF ne p] by simp
  have "int (length ?chunk) \<le> max_tokens" using assms(1) by simp
  with s l show ?thesis
    by (intro exI [of _ "py_join '' '' ?chunk"]) (simp add: entry_chunk_def Let_def)
qed

lemma split_entries_chunk_body_within_bounds:
  assumes "split_entries_by_max_tokens uuid4 entries max_tokens max_word_length = Inr chunked_entries"
    and "c \<in> set chunked_entries"
  shows "\<exists>e \<in> set entries. \<exists>body.
     (compiled c = body \<or> compiled c = py_suffix 100 (heading e) @ [CHR ''.'', CHR 0x0A] @ body) \<and>
     int (length (py_split CHR '' '' body)) \<le> max_tokens \<and>
     (\<forall>w \<in> set (py_split CHR '' '' body). int (length w) \<le> max_word_length)"
proof -
  from assms(1) obtain css where css: "length css = length entries" "chunked_entries = concat css"
    and each: "\<forall>i < length entries.
      entry_chunks max_tokens max_word_length (uuid4 i) (entries ! i) = Inr (css ! i)"
    using split_entries_from_Inr [of uuid4 0 entries max_tokens max_word_length chunked_entries]
    by (auto simp: split_entries_by_max_tokens_def)
  from assms(2) css obtain cs where "cs \<in> set css" and ccs: "c \<in> set cs" by auto
  with css obtain i where i: "i < length entries" and "css ! i = cs"
    by (auto simp: in_set_conv_nth)
  with ccs each have ec: "entry_chunks max_tokens max_word_length (uuid4 i) (entries ! i) = Inr cs"
    by simp
  let ?e = "entries ! i"
  let ?ws = "compiled_entry_words max_word_length ?e"
  from ec obtain idxs where r: "py_range0 (length ?ws) max_tokens = Inr idxs"
    and cs: "cs = map (entry_chunk max_tokens (uuid4 i) ?e ?ws) idxs"
    by (auto simp: entry_chunks_def Let_def bind_err_Inr_iff)
  from ccs cs obtain k where k: "k \<in> set idxs" and c: "c = entry_chunk max_tokens (uuid4 i) ?e ?ws k"
    by auto
  from py_range0_Inr [OF r k] have "0 < max_tokens" "k < length ?ws" by simp_all
  from entry_chunk_body_within_bounds [OF this refl, of "uuid4 i"] obtain body where
    b: "compiled c = (if k > 0 then py_suffix 100 (heading ?e) @ [CHR ''.'', CHR 0x0A] @ body else body)"
    and w: "int (length (py_split CHR '' '' body)) \<le> max_tokens \<and>
      (\<forall>w \<in> set (py_split CHR '' '' body). int (length w) \<le> max_word_length)"
    unfolding c by blast
  from b have "compiled c = body \<or> compiled c = py_suffix 100 (heading ?e) @ [CHR ''.'', CHR 0x0A] @ body"
    by (cases "k > 0") simp_all
  with w have "\<exists>body. (compiled c = body \<or>
        compiled c = py_suffix 100 (heading ?e) @ [CHR ''.'', CHR 0x0A] @ body) \<and>
     int (length (py_split CHR '' '' body)) \<le> max_tokens \<and>
     (\<forall>w \<in> set (py_split CHR '' '' body). int (length w) \<le> max_word_length)"
    by blast
  moreover from i have "?e \<in> set entries" by simp
  ultimately show ?thesis by (rule_tac x = "?e" in bexI)
qed

text \<open>
  C2 (chunk bound). The bound fails for a chunk after the first: with
  \<open>max_tokens = 1\<close> and \<open>max_word_length = 5\<close> the entry with text \<open>a b\<close> and
  heading \<open>my heading\<close> yields a second chunk whose \<open>compiled\<close> field splits at
  spaces into two words, the second of them ten characters long.
\<close>

theorem split_entries_chunk_bound_exceeded:
  "split_entries_by_max_tokens (\<lambda>k. k)
      [\<lparr> raw = ''a b'', compiled = ''a b'', heading = ''my heading'', file = ''f'', corpus_id = None \<rparr>] 1 5
    = Inr [\<lparr> raw = ''a b'', compiled = ''a'', heading = ''my heading'', file = ''f'', corpus_id = Some 0 \<rparr>,
           \<lparr> raw = ''a b'', compiled = ''my heading.'' @ [CHR 0x0A] @ ''b'', heading = ''my heading'',
             file = ''f'', corpus_id = Some 0 \<rparr>] \<and>
   py_split CHR '' '' (''my heading.'' @ [CHR 0x0A] @ ''b'') = [''my'', ''heading.'' @ [CHR 0x0A] @ ''b''] \<and>
   int (length (py_split CHR '' '' (''my heading.'' @ [CHR 0x0A] @ ''b''))) > 1 \<and>
   int (length (''heading.'' @ [CHR 0x0A] @ ''b'')) > 5"
  by code_simp

section \<open>Properties of the list-backed diff\<close>

lemma py_index_first_index:
  "py_index xs x = (if x \<in> set xs then Inr (first_index xs x) else Inl ValueError)"
  by (induction xs) (auto simp: first_index_def)

lemma first_index_nth: "x \<in> set xs \<Longrightarrow> xs ! first_index xs x = x"
  unfolding first_index_def by (induction xs) auto

lemma first_index_inj: "x \<in> set xs \<Longrightarrow> y \<in> set xs \<Longrightarrow> first_index xs x = first_index xs y \<Longrightarrow> x = y"
  by (metis first_index_nth)

lemma map_err_Inr:
  "(\<And>x. x \<in> set xs \<Longrightarrow> f x = Inr (g x)) \<Longrightarrow> map_err f xs = Inr (map g xs)"
  by (induction xs) simp_all

lemma py_dict_zip_map:
  "py_dict (zip (map f es) es) h =
     (if h \<in> f ` set es then Some (last (filter (\<lambda>e. f e = h) es)) else None)"
proof (induction es rule: rev_induct)
  case Nil
  then show ?case by (simp add: py_dict_def)
next
  case (snoc e es)
  have "py_dict (zip (map f (es @ [e])) (es @ [e])) h =
      (if h = f e then Some e else py_dict (zip (map f es) es) h)"
    by (auto simp: py_dict_def)
  with snoc show ?case by auto
qed

lemma last_filter_in:
  "h \<in> f ` set es \<Longrightarrow> last (filter (\<lambda>e. f e = h) es) \<in> set es \<and> f (last (filter (\<lambda>e. f e = h) es)) = h"
proof -
  assume "h \<in> f ` set es"
  then have ne: "filter (\<lambda>e. f e = h) es \<noteq> []"
    by (auto simp: filter_empty_conv)
  then have "last (filter (\<lambda>e. f e = h) es) \<in> set (filter (\<lambda>e. f e = h) es)"
    by (rule last_in_set)
  then show ?thesis by simp
qed

lemma index_entries_closed:
  assumes "set hs \<subseteq> f ` set es"
  shows "index_entries (map f es) (py_dict (zip (map f es) es)) hs =
           Inr (map (\<lambda>h. (int (first_index (map f es) h), entry_for f es h)) hs)"
  unfolding index_entries_def
proof (rule map_err_Inr)
  fix h assume "h \<in> set hs"
  with assms have h: "h \<in> f ` set es" by auto
  then show "bind_err (py_index (map f es) h)
          (\<lambda>i. bind_err (dict_get (py_dict (zip (map f es) es)) h) (\<lambda>e. Inr (int i, e))) =
         Inr (int (first_index (map f es) h), entry_for f es h)"
    by (simp add: py_index_first_index py_dict_zip_map dict_get_def bind_err_def entry_for_def)
qed

lemma entry_for_in: "h \<in> f ` set es \<Longrightarrow> entry_for f es h \<in> set es"
  unfolding entry_for_def by (simp add: last_filter_in)

lemma entry_for_hash: "h \<in> f ` set es \<Longrightarrow> f (entry_for f es h) = h"
  unfolding entry_for_def by (simp add: last_filter_in)

lemma set_py_set [simp]: "set (py_set xs) = set xs"
  by (simp add: py_set_def)

lemma distinct_py_set [simp]: "distinct (py_set xs)"
  by (simp add: py_set_def)

lemma set_set_diff [simp]: "set (set_diff a b) = set a - set b"
  by (auto simp: set_diff_def)

lemma set_set_inter [simp]: "set (set_inter a b) = set a \<inter> set b"
  by (auto simp: set_inter_def)

lemma set_set_union [simp]: "set (set_union a b) = set a \<union> set b"
  by (auto simp: set_union_def)

lemma distinct_set_diff [simp]: "distinct a \<Longrightarrow> distinct (set_diff a b)"
  by (simp add: set_diff_def)

lemma distinct_set_inter [simp]: "distinct a \<Longrightarrow> distinct (set_inter a b)"
  by (simp add: set_inter_def)

lemma distinct_set_union [simp]: "distinct a \<Longrightarrow> distinct b \<Longrightarrow> distinct (set_union a b)"
  by (auto simp: set_union_def)

lemma preserving_hashes_subset:
  "set (preserving_hashes md5 cur prev key del) \<subseteq> hash_func md5 key ` set prev"
  by (auto simp: preserving_hashes_def Let_def)

lemma preserving_hashes_distinct:
  "distinct (preserving_hashes md5 cur prev key del)"
  by (auto simp: preserving_hashes_def Let_def)

lemma mark_entries_for_update_closed:
  "mark_entries_for_update md5 cur prev key del =
     Inr (sort_key fst (map (\<lambda>h. (int (first_index (map (hash_func md5 key) prev) h),
                                   entry_for (hash_func md5 key) prev h))
                          (preserving_hashes md5 cur prev key del))
          @ map (\<lambda>entry. (- 1, snd entry))
              (sort_key fst (map (\<lambda>h. (int (first_index (map (hash_func md5 key) cur) h),
                                        entry_for (hash_func md5 key) cur h))
                 (set_diff (py_set (map (hash_func md5 key) cur)) (py_set (map (hash_func md5 key) prev))))))"
proof -
  let ?f = "hash_func md5 key"
  let ?new = "set_diff (py_set (map ?f cur)) (py_set (map ?f prev))"
  have n: "set ?new \<subseteq> ?f ` set cur" by auto
  have p: "set (preserving_hashes md5 cur prev key del) \<subseteq> ?f ` set prev"
    by (rule preserving_hashes_subset)
  have "mark_entries_for_update md5 cur prev key del =
    bind_err (index_entries (map ?f cur) (py_dict (zip (map ?f cur) cur)) ?new)
           (\<lambda>new_entries.
              let new_entries_sorted = map (\<lambda>entry. (- 1, snd entry)) (sort_key fst new_entries)
              in bind_err (index_entries (map ?f prev) (py_dict (zip (map ?f prev) prev))
                     (preserving_hashes md5 cur prev key del))
                   (\<lambda>existing_entries.
                      let existing_entries_sorted = sort_key fst existing_entries
                      in Inr (existing_entries_sorted @ new_entries_sorted)))"
    by (simp add: mark_entries_for_update_def Let_def)
  then show ?thesis
    by (simp add: index_entries_closed [OF n] index_entries_closed [OF p] bind_err_def Let_def)
qed

lemma indexed_set:
  "set (indexed f es hs) = (\<lambda>h. (int (first_index (map f es) h), entry_for f es h)) ` set hs"
  by (simp add: indexed_def)

lemma indexed_strict_sorted:
  assumes "distinct hs" and "set hs \<subseteq> f ` set es"
  shows "sorted_wrt (\<lambda>p q. fst p < fst q) (indexed f es hs)"
proof -
  let ?g = "\<lambda>h. (int (first_index (map f es) h), entry_for f es h)"
  have inj: "inj_on (\<lambda>h. int (first_index (map f es) h)) (set hs)"
  proof (rule inj_onI)
    fix x y assume "x \<in> set hs" "y \<in> set hs"
      and "int (first_index (map f es) x) = int (first_index (map f es) y)"
    with assms(2) have "x \<in> set (map f es)" "y \<in> set (map f es)"
      "first_index (map f es) x = first_index (map f es) y"
      by auto
    then show "x = y" by (rule first_index_inj)
  qed
  with assms(1) have "distinct (map (\<lambda>h. int (first_index (map f es) h)) hs)"
    by (simp add: distinct_map)
  then have d: "distinct (map fst (map ?g hs))"
    by (simp add: comp_def)
  then have "distinct (map fst (sort_key fst (map ?g hs)))"
    by (simp only: distinct_map distinct_sort set_sort)
  then have "distinct (map fst (indexed f es hs))"
    by (simp only: indexed_def)
  moreover have "sorted (map fst (indexed f es hs))"
    by (simp add: indexed_def)
  ultimately have "sorted_wrt (<) (map fst (indexed f es hs))"
    by (simp add: strict_sorted_iff)
  then show ?thesis by (simp add: sorted_wrt_map)
qed

lemma indexed_elem:
  assumes "p \<in> set (indexed f es hs)" and "set hs \<subseteq> f ` set es"
  shows "0 \<le> fst p \<and> py_index (map f es) (f (snd p)) = Inr (nat (fst p)) \<and>
         snd p \<in> set es \<and> f (snd p) \<in> set hs"
proof -
  from assms(1) obtain h where h: "h \<in> set hs"
    and p: "p = (int (first_index (map f es) h), entry_for f es h)"
    by (auto simp: indexed_set)
  from h assms(2) have hf: "h \<in> f ` set es" by auto
  from hf have e: "entry_for f es h \<in> set es" "f (entry_for f es h) = h"
    by (simp_all add: entry_for_in entry_for_hash)
  from hf have "py_index (map f es) h = Inr (first_index (map f es) h)"
    by (simp add: py_index_first_index)
  with p e h show ?thesis by simp
qed

lemma indexed_hashes:
  assumes "set hs \<subseteq> f ` set es"
  shows "f ` snd ` set (indexed f es hs) = set hs"
proof -
  have "\<And>h. h \<in> set hs \<Longrightarrow> f (entry_for f es h) = h"
    using assms by (auto simp: entry_for_hash)
  then show ?thesis
    by (force simp: indexed_set image_iff)
qed

lemma indexed_index_less:
  assumes "distinct hs" and "set hs \<subseteq> f ` set es"
  shows "sorted_wrt (\<lambda>a b. index_less (map f es) (f a) (f b)) (map snd (indexed f es hs))"
proof -
  have "sorted_wrt (\<lambda>p q. index_less (map f es) (f (snd p)) (f (snd q))) (indexed f es hs)"
  proof (rule sorted_wrt_mono_rel [OF _ indexed_strict_sorted [OF assms]])
    fix p q assume p: "p \<in> set (indexed f es hs)" and q: "q \<in> set (indexed f es hs)"
      and lt: "fst p < fst q"
    from indexed_elem [OF p assms(2)] indexed_elem [OF q assms(2)] lt
    show "index_less (map f es) (f (snd p)) (f (snd q))"
      by (simp add: index_less_def)
  qed
  then show ?thesis by (simp add: sorted_wrt_map)
qed

lemma mark_entries_for_update_indexed:
  "mark_entries_for_update md5 cur prev key del =
     Inr (indexed (hash_func md5 key) prev (preserving_hashes md5 cur prev key del)
          @ map (\<lambda>e. (- 1, e))
              (map snd (indexed (hash_func md5 key) cur
                 (set_diff (py_set (map (hash_func md5 key) cur)) (py_set (map (hash_func md5 key) prev))))))"
  by (simp add: mark_entries_for_update_closed indexed_def comp_def)


lemma set_preserving_hashes:
  "set (preserving_hashes md5 cur prev key del) =
     (case del of
        None \<Rightarrow> hash_func md5 key ` set cur \<inter> hash_func md5 key ` set prev
      | Some fs \<Rightarrow>
          hash_func md5 key ` set prev -
            (hash_func md5 key ` set prev \<inter> hash_func md5 key ` {e \<in> set prev. file e \<in> set fs}))"
proof (cases del)
  case None
  then show ?thesis by (simp add: preserving_hashes_def Let_def)
next
  case (Some fs)
  show ?thesis
  proof (cases "filter (\<lambda>e. file e \<in> set fs) prev = []")
    case True
    then have "{e \<in> set prev. file e \<in> set fs} = {}"
      by (auto simp: filter_empty_conv)
    with Some True show ?thesis
      by (auto simp: preserving_hashes_def Let_def)
  next
    case False
    have "set (filter (\<lambda>e. file e \<in> set fs) prev) = {e \<in> set prev. file e \<in> set fs}"
      by auto
    with Some False show ?thesis
      by (simp add: preserving_hashes_def Let_def)
  qed
qed

lemma preserved_part:
  assumes "\<forall>p \<in> set P. 0 \<le> fst p"
  shows "{p \<in> set (P @ map (\<lambda>e. (- 1 :: int, e)) N). fst p \<noteq> - 1} = set P"
  using assms by auto


text \<open>Two runs of the diff on the same lists, without and with a deletion set.\<close>

lemma mark_example:
  "mark_entries_for_update (\<lambda>s. s)
     [\<lparr> raw = ''b'', compiled = ''b'', heading = '''', file = ''f'', corpus_id = None \<rparr>,
      \<lparr> raw = ''c'', compiled = ''c'', heading = '''', file = ''f'', corpus_id = None \<rparr>]
     [\<lparr> raw = ''a'', compiled = ''a'', heading = '''', file = ''f'', corpus_id = None \<rparr>,
      \<lparr> raw = ''b'', compiled = ''b'', heading = '''', file = ''g'', corpus_id = None \<rparr>]
     KeyCompiled None =
   Inr [(1, \<lparr> raw = ''b'', compiled = ''b'', heading = '''', file = ''g'', corpus_id = None \<rparr>),
        (- 1, \<lparr> raw = ''c'', compiled = ''c'', heading = '''', file = ''f'', corpus_id = None \<rparr>)]"
  by code_simp

lemma mark_example2:
  "mark_entries_for_update (\<lambda>s. s)
     [\<lparr> raw = ''b'', compiled = ''b'', heading = '''', file = ''f'', corpus_id = None \<rparr>,
      \<lparr> raw = ''c'', compiled = ''c'', heading = '''', file = ''f'', corpus_id = None \<rparr>]
     [\<lparr> raw = ''a'', compiled = ''a'', heading = '''', file = ''f'', corpus_id = None \<rparr>,
      \<lparr> raw = ''b'', compiled = ''b'', heading = '''', file = ''g'', corpus_id = None \<rparr>]
     KeyCompiled (Some [''g'']) =
   Inr [(0, \<lparr> raw = ''a'', compiled = ''a'', heading = '''', file = ''f'', corpus_id = None \<rparr>),
        (- 1, \<lparr> raw = ''c'', compiled = ''c'', heading = '''', file = ''f'', corpus_id = None \<rparr>)]"
  by code_simp


text \<open>
  C7 (diff output ordering). The output is a list of preserved entries followed
  by a list of new entries. Every preserved entry is paired with the index of
  its hash in the previous list and these indices ascend strictly; every new
  entry is paired with \<open>-1\<close>, the new entries are ordered by the index of
  their hash in the current list, and their hashes are those of the current
  list that the previous list does not have.
\<close>

theorem mark_entries_for_update_ordering:
  "\<exists>preserved new.
     mark_entries_for_update md5 current_entries previous_entries key deletion_filenames =
       Inr (preserved @ map (\<lambda>e. (- 1, e)) new) \<and>
     (\<forall>p \<in> set preserved.
        0 \<le> fst p \<and>
        py_index (map (hash_func md5 key) previous_entries) (hash_func md5 key (snd p)) = Inr (nat (fst p))) \<and>
     sorted_wrt (\<lambda>p q. fst p < fst q) preserved \<and>
     snd ` set preserved \<subseteq> set previous_entries \<and>
     sorted_wrt (\<lambda>a b. index_less (map (hash_func md5 key) current_entries)
                    (hash_func md5 key a) (hash_func md5 key b)) new \<and>
     set new \<subseteq> set current_entries \<and>
     hash_func md5 key ` set new =
       hash_func md5 key ` set current_entries - hash_func md5 key ` set previous_entries"
proof -
  let ?f = "hash_func md5 key"
  let ?ph = "preserving_hashes md5 current_entries previous_entries key deletion_filenames"
  let ?nh = "set_diff (py_set (map ?f current_entries)) (py_set (map ?f previous_entries))"
  let ?P = "indexed ?f previous_entries ?ph"
  let ?N = "map snd (indexed ?f current_entries ?nh)"
  have ps: "set ?ph \<subseteq> ?f ` set previous_entries" by (rule preserving_hashes_subset)
  have pd: "distinct ?ph" by (rule preserving_hashes_distinct)
  have ns: "set ?nh \<subseteq> ?f ` set current_entries" by auto
  have nd: "distinct ?nh" by simp
  have 1: "mark_entries_for_update md5 current_entries previous_entries key deletion_filenames =
       Inr (?P @ map (\<lambda>e. (- 1, e)) ?N)"
    by (rule mark_entries_for_update_indexed)
  have 2: "\<forall>p \<in> set ?P. 0 \<le> fst p \<and>
        py_index (map ?f previous_entries) (?f (snd p)) = Inr (nat (fst p))"
    using indexed_elem [OF _ ps] by blast
  have 3: "sorted_wrt (\<lambda>p q. fst p < fst q) ?P"
    by (rule indexed_strict_sorted [OF pd ps])
  have 4: "snd ` set ?P \<subseteq> set previous_entries"
    using indexed_elem [OF _ ps] by blast
  have 5: "sorted_wrt (\<lambda>a b. index_less (map ?f current_entries) (?f a) (?f b)) ?N"
    by (rule indexed_index_less [OF nd ns])
  have 6: "set ?N \<subseteq> set current_entries"
    using indexed_elem [OF _ ns] by auto
  have "?f ` set ?N = set ?nh"
    using indexed_hashes [OF ns] by (simp add: image_image)
  then have 7: "?f ` set ?N = ?f ` set current_entries - ?f ` set previous_entries"
    by simp
  from 1 2 3 4 5 6 7 show ?thesis by blast
qed

theorem mark_entries_for_update_ordering_witness:
  "let current_entries =
         [\<lparr> raw = ''b'', compiled = ''b'', heading = '''', file = ''f'', corpus_id = None \<rparr>,
          \<lparr> raw = ''c'', compiled = ''c'', heading = '''', file = ''f'', corpus_id = None \<rparr>];
       previous_entries =
         [\<lparr> raw = ''a'', compiled = ''a'', heading = '''', file = ''f'', corpus_id = None \<rparr>,
          \<lparr> raw = ''b'', compiled = ''b'', heading = '''', file = ''g'', corpus_id = None \<rparr>];
       h = hash_func (\<lambda>s. s) KeyCompiled
   in mark_entries_for_update (\<lambda>s. s) current_entries previous_entries KeyCompiled None =
        Inr [(1, \<lparr> raw = ''b'', compiled = ''b'', heading = '''', file = ''g'', corpus_id = None \<rparr>),
             (- 1, \<lparr> raw = ''c'', compiled = ''c'', heading = '''', file = ''f'', corpus_id = None \<rparr>)] \<and>
      (\<exists>preserved new.
         mark_entries_for_update (\<lambda>s. s) current_entries previous_entries KeyCompiled None =
           Inr (preserved @ map (\<lambda>e. (- 1, e)) new) \<and>
         (\<forall>p \<in> set preserved.
            0 \<le> fst p \<and> py_index (map h previous_entries) (h (snd p)) = Inr (nat (fst p))) \<and>
         sorted_wrt (\<lambda>p q. fst p < fst q) preserved \<and>
         snd ` set preserved \<subseteq> set previous_entries \<and>
         sorted_wrt (\<lambda>a b. index_less (map h current_entries) (h a) (h b)) new \<and>
         set new \<subseteq> set current_entries \<and>
         h ` set new = h ` set current_entries - h ` set previous_entries)"
  unfolding Let_def
  by (intro conjI mark_example mark_entries_for_update_ordering)

text \<open>
  C3 (preserve rule), as amended. The hashes of the preserved part of the
  output (the pairs whose id is not \<open>-1\<close>) are: with no deletion set, the
  hashes common to the current and the previous list (\<open>existing\<close>), so a
  previous entry whose hash the current list lacks is dropped; with a deletion
  set, the previous hashes minus \<open>to_delete\<close>, the hashes of the previous
  entries whose file is in the set.
\<close>

theorem mark_entries_for_update_preserve_rule:
  "\<exists>entries_with_ids.
     mark_entries_for_update md5 current_entries previous_entries key deletion_filenames =
       Inr entries_with_ids \<and>
     hash_func md5 key ` snd ` {p \<in> set entries_with_ids. fst p \<noteq> - 1} =
       (case deletion_filenames of
          None \<Rightarrow> hash_func md5 key ` set current_entries \<inter> hash_func md5 key ` set previous_entries
        | Some fs \<Rightarrow>
            hash_func md5 key ` set previous_entries -
              (hash_func md5 key ` set previous_entries \<inter>
               hash_func md5 key ` {e \<in> set previous_entries. file e \<in> set fs}))"
proof -
  let ?f = "hash_func md5 key"
  let ?ph = "preserving_hashes md5 current_entries previous_entries key deletion_filenames"
  let ?nh = "set_diff (py_set (map ?f current_entries)) (py_set (map ?f previous_entries))"
  let ?P = "indexed ?f previous_entries ?ph"
  let ?N = "map snd (indexed ?f current_entries ?nh)"
  have ps: "set ?ph \<subseteq> ?f ` set previous_entries" by (rule preserving_hashes_subset)
  have 1: "mark_entries_for_update md5 current_entries previous_entries key deletion_filenames =
       Inr (?P @ map (\<lambda>e. (- 1, e)) ?N)"
    by (rule mark_entries_for_update_indexed)
  have "\<forall>p \<in> set ?P. 0 \<le> fst p"
    using indexed_elem [OF _ ps] by blast
  then have "{p \<in> set (?P @ map (\<lambda>e. (- 1, e)) ?N). fst p \<noteq> - 1} = set ?P"
    by (rule preserved_part)
  then have "?f ` snd ` {p \<in> set (?P @ map (\<lambda>e. (- 1, e)) ?N). fst p \<noteq> - 1} = set ?ph"
    by (simp only: indexed_hashes [OF ps])
  with 1 show ?thesis
    by (simp only: set_preserving_hashes) blast
qed

theorem mark_entries_for_update_preserve_rule_witness:
  "let current_entries =
         [\<lparr> raw = ''b'', compiled = ''b'', heading = '''', file = ''f'', corpus_id = None \<rparr>,
          \<lparr> raw = ''c'', compiled = ''c'', heading = '''', file = ''f'', corpus_id = None \<rparr>];
       previous_entries =
         [\<lparr> raw = ''a'', compiled = ''a'', heading = '''', file = ''f'', corpus_id = None \<rparr>,
          \<lparr> raw = ''b'', compiled = ''b'', heading = '''', file = ''g'', corpus_id = None \<rparr>];
       h = hash_func (\<lambda>s. s) KeyCompiled
   in mark_entries_for_update (\<lambda>s. s) current_entries previous_entries KeyCompiled (Some [''g'']) =
        Inr [(0, \<lparr> raw = ''a'', compiled = ''a'', heading = '''', file = ''f'', corpus_id = None \<rparr>),
             (- 1, \<lparr> raw = ''c'', compiled = ''c'', heading = '''', file = ''f'', corpus_id = None \<rparr>)] \<and>
      (\<exists>entries_with_ids.
         mark_entries_for_update (\<lambda>s. s) current_entries previous_entries KeyCompiled (Some [''g'']) =
           Inr entries_with_ids \<and>
         h ` snd ` {p \<in> set entries_with_ids. fst p \<noteq> - 1} =
           h ` set previous_entries -
             (h ` set previous_entries \<inter> h ` {e \<in> set previous_entries. file e \<in> set [''g'']}))"
proof -
  let ?cur = "[\<lparr> raw = ''b'', compiled = ''b'', heading = '''', file = ''f'', corpus_id = None \<rparr>,
          \<lparr> raw = ''c'', compiled = ''c'', heading = '''', file = ''f'', corpus_id = None \<rparr>]"
  let ?prev = "[\<lparr> raw = ''a'', compiled = ''a'', heading = '''', file = ''f'', corpus_id = None \<rparr>,
          \<lparr> raw = ''b'', compiled = ''b'', heading = '''', file = ''g'', corpus_id = None \<rparr>]"
  have "\<exists>entries_with_ids.
     mark_entries_for_update (\<lambda>s. s) ?cur ?prev KeyCompiled (Some [''g'']) = Inr entries_with_ids \<and>
     hash_func (\<lambda>s. s) KeyCompiled ` snd ` {p \<in> set entries_with_ids. fst p \<noteq> - 1} =
       (case Some [''g''] of
          None \<Rightarrow> hash_func (\<lambda>s. s) KeyCompiled ` set ?cur \<inter> hash_func (\<lambda>s. s) KeyCompiled ` set ?prev
        | Some fs \<Rightarrow>
            hash_func (\<lambda>s. s) KeyCompiled ` set ?prev -
              (hash_func (\<lambda>s. s) KeyCompiled ` set ?prev \<inter>
               hash_func (\<lambda>s. s) KeyCompiled ` {e \<in> set ?prev. file e \<in> set fs}))"
    by (rule mark_entries_for_update_preserve_rule)
  then show ?thesis
    unfolding Let_def option.case
    by (intro conjI mark_example2)
qed

text \<open>
  The claim as first stated, that without a deletion set the preserved part is
  \<open>existing \<union> remaining\<close>, fails: the previous entry \<open>a\<close>, absent from the
  current list, is not in the output.
\<close>

theorem mark_entries_for_update_preserve_counterexample:
  "\<not> (let current_entries =
            [\<lparr> raw = ''b'', compiled = ''b'', heading = '''', file = ''f'', corpus_id = None \<rparr>,
             \<lparr> raw = ''c'', compiled = ''c'', heading = '''', file = ''f'', corpus_id = None \<rparr>];
          previous_entries =
            [\<lparr> raw = ''a'', compiled = ''a'', heading = '''', file = ''f'', corpus_id = None \<rparr>,
             \<lparr> raw = ''b'', compiled = ''b'', heading = '''', file = ''g'', corpus_id = None \<rparr>];
          h = hash_func (\<lambda>s. s) KeyCompiled
      in \<exists>entries_with_ids.
           mark_entries_for_update (\<lambda>s. s) current_entries previous_entries KeyCompiled None =
             Inr entries_with_ids \<and>
           h ` snd ` {p \<in> set entries_with_ids. fst p \<noteq> - 1} =
             (h ` set current_entries \<inter> h ` set previous_entries) \<union>
             (h ` set previous_entries - h ` set current_entries))"
proof -
  let ?h = "hash_func (\<lambda>s. s) KeyCompiled"
  let ?a = "\<lparr> raw = ''a'', compiled = ''a'', heading = '''', file = ''f'', corpus_id = None \<rparr>"
  let ?out = "[(1 :: int, \<lparr> raw = ''b'', compiled = ''b'', heading = '''', file = ''g'', corpus_id = None \<rparr>),
        (- 1, \<lparr> raw = ''c'', compiled = ''c'', heading = '''', file = ''f'', corpus_id = None \<rparr>)]"
  have 1: "?h ?a \<notin> ?h ` snd ` {p \<in> set ?out. fst p \<noteq> - 1}"
    by (auto simp: hash_func_def)
  have 2: "?h ?a \<in> (?h ` set [\<lparr> raw = ''b'', compiled = ''b'', heading = '''', file = ''f'', corpus_id = None \<rparr>,
             \<lparr> raw = ''c'', compiled = ''c'', heading = '''', file = ''f'', corpus_id = None \<rparr>] \<inter>
           ?h ` set [?a, \<lparr> raw = ''b'', compiled = ''b'', heading = '''', file = ''g'', corpus_id = None \<rparr>]) \<union>
          (?h ` set [?a, \<lparr> raw = ''b'', compiled = ''b'', heading = '''', file = ''g'', corpus_id = None \<rparr>] -
           ?h ` set [\<lparr> raw = ''b'', compiled = ''b'', heading = '''', file = ''f'', corpus_id = None \<rparr>,
             \<lparr> raw = ''c'', compiled = ''c'', heading = '''', file = ''f'', corpus_id = None \<rparr>])"
    by (simp add: hash_func_def)
  show ?thesis
    unfolding Let_def mark_example
  proof (rule notI, elim exE conjE)
    fix entries_with_ids :: "(int \<times> entry) list"
    assume "Inr ?out = (Inr entries_with_ids :: py_error + (int \<times> entry) list)"
    then have e: "entries_with_ids = ?out" by simp
    assume "?h ` snd ` {p \<in> set entries_with_ids. fst p \<noteq> - 1} =
       (?h ` set [\<lparr> raw = ''b'', compiled = ''b'', heading = '''', file = ''f'', corpus_id = None \<rparr>,
             \<lparr> raw = ''c'', compiled = ''c'', heading = '''', file = ''f'', corpus_id = None \<rparr>] \<inter>
           ?h ` set [?a, \<lparr> raw = ''b'', compiled = ''b'', heading = '''', file = ''g'', corpus_id = None \<rparr>]) \<union>
          (?h ` set [?a, \<lparr> raw = ''b'', compiled = ''b'', heading = '''', file = ''g'', corpus_id = None \<rparr>] -
           ?h ` set [\<lparr> raw = ''b'', compiled = ''b'', heading = '''', file = ''f'', corpus_id = None \<rparr>,
             \<lparr> raw = ''c'', compiled = ''c'', heading = '''', file = ''f'', corpus_id = None \<rparr>])"
    with 1 2 e show False by blast
  qed
qed

text \<open>
  The order in which the two sets of hashes are iterated does not show in the
  output of the diff: the pairs are sorted by an index that differs from hash
  to hash.
\<close>

lemma strict_sorted_fst_unique:
  assumes "sorted_wrt (\<lambda>p q. fst p < fst q) (xs :: (int \<times> 'a) list)"
    and "sorted_wrt (\<lambda>p q. fst p < fst q) ys" and "set xs = set ys"
  shows "xs = ys"
proof -
  from assms(1,2) have "sorted_wrt (<) (map fst xs)" and "sorted_wrt (<) (map fst ys)"
    by (simp_all add: sorted_wrt_map)
  then have sx: "sorted (map fst xs)" and dx: "distinct (map fst xs)"
    and sy: "sorted (map fst ys)" and dy: "distinct (map fst ys)"
    by (simp_all add: strict_sorted_iff)
  from assms(3) have "set (map fst xs) = set (map fst ys)" by simp
  with sx dx sy dy have m: "map fst xs = map fst ys"
    by (rule sorted_distinct_set_unique)
  then have len: "length xs = length ys" by (rule map_eq_imp_length_eq)
  from dx have inj: "inj_on fst (set xs)" by (simp add: distinct_map)
  have "\<forall>i < length xs. xs ! i = ys ! i"
  proof (intro allI impI)
    fix i assume i: "i < length xs"
    then have x: "xs ! i \<in> set xs" by (rule nth_mem)
    from i len have "ys ! i \<in> set ys" by simp
    with assms(3) have y: "ys ! i \<in> set xs" by simp
    from m have "map fst xs ! i = map fst ys ! i" by simp
    with i len have "fst (xs ! i) = fst (ys ! i)" by simp
    with inj x y show "xs ! i = ys ! i" by (simp add: inj_on_def)
  qed
  with len show ?thesis by (simp add: list_eq_iff_nth_eq)
qed

lemma indexed_order_irrelevant:
  assumes "distinct hs" and "distinct hs'" and "set hs = set hs'" and "set hs \<subseteq> f ` set es"
  shows "indexed f es hs = indexed f es hs'"
proof (rule strict_sorted_fst_unique)
  show "sorted_wrt (\<lambda>p q. fst p < fst q) (indexed f es hs)"
    by (rule indexed_strict_sorted [OF assms(1,4)])
  show "sorted_wrt (\<lambda>p q. fst p < fst q) (indexed f es hs')"
    using assms by (intro indexed_strict_sorted) auto
  show "set (indexed f es hs) = set (indexed f es hs')"
    using assms(3) by (simp add: indexed_set)
qed

lemma mark_entries_for_update_any_order:
  assumes "distinct ns"
    and "set ns = set (set_diff (py_set (map (hash_func md5 key) cur)) (py_set (map (hash_func md5 key) prev)))"
    and "distinct ps" and "set ps = set (preserving_hashes md5 cur prev key del)"
  shows "bind_err (index_entries (map (hash_func md5 key) cur)
              (py_dict (zip (map (hash_func md5 key) cur) cur)) ns)
           (\<lambda>new_entries.
              let new_entries_sorted = map (\<lambda>entry. (- 1, snd entry)) (sort_key fst new_entries)
              in bind_err (index_entries (map (hash_func md5 key) prev)
                     (py_dict (zip (map (hash_func md5 key) prev) prev)) ps)
                   (\<lambda>existing_entries.
                      let existing_entries_sorted = sort_key fst existing_entries
                      in Inr (existing_entries_sorted @ new_entries_sorted))) =
         mark_entries_for_update md5 cur prev key del"
proof -
  let ?f = "hash_func md5 key"
  have n: "set ns \<subseteq> ?f ` set cur" using assms(2) by auto
  have p: "set ps \<subseteq> ?f ` set prev"
    using assms(4) preserving_hashes_subset [of md5 cur prev key del] by simp
  have 1: "indexed ?f cur ns = indexed ?f cur (set_diff (py_set (map ?f cur)) (py_set (map ?f prev)))"
    using assms(1,2) n by (intro indexed_order_irrelevant) simp_all
  have 2: "indexed ?f prev ps = indexed ?f prev (preserving_hashes md5 cur prev key del)"
    using assms(3,4) p by (intro indexed_order_irrelevant) (simp_all add: preserving_hashes_distinct)
  show ?thesis
    unfolding mark_entries_for_update_indexed 1 [symmetric] 2 [symmetric]
    by (simp add: index_entries_closed [OF n] index_entries_closed [OF p] bind_err_def Let_def
        indexed_def comp_def)
qed

section \<open>Properties of the index updater\<close>

declare grouper.simps [simp del]

lemma grouper_Nil [simp]: "grouper [] n = []"
  by (simp add: grouper.simps)

lemma grouper_0 [simp]: "grouper xs 0 = []"
  by (simp add: grouper.simps)

lemma concat_grouper: "0 < n \<Longrightarrow> concat (grouper xs n) = xs"
proof (induction xs n rule: grouper.induct)
  case (1 xs max_n)
  show ?case
  proof (cases "xs = []")
    case True
    then show ?thesis by simp
  next
    case False
    with 1 show ?thesis
      by (subst grouper.simps) simp
  qed
qed

lemma grouper_bounds: "b \<in> set (grouper xs n) \<Longrightarrow> b \<noteq> [] \<and> length b \<le> n \<and> set b \<subseteq> set xs"
proof (induction xs n rule: grouper.induct)
  case (1 xs max_n)
  show ?case
  proof (cases "max_n = 0 \<or> xs = []")
    case True
    with 1(2) show ?thesis by (auto simp: grouper.simps)
  next
    case False
    with 1(2) have "b = take max_n xs \<or> b \<in> set (grouper (drop max_n xs) max_n)"
      by (subst (asm) grouper.simps) simp
    then show ?thesis
    proof
      assume "b = take max_n xs"
      with False show ?thesis by (auto dest: in_set_takeD)
    next
      assume "b \<in> set (grouper (drop max_n xs) max_n)"
      with 1(1) False have "b \<noteq> [] \<and> length b \<le> max_n \<and> set b \<subseteq> set (drop max_n xs)"
        by blast
      then show ?thesis by (auto dest: in_set_dropD)
    qed
  qed
qed

lemma dict_get_dom: "h \<in> dom d \<Longrightarrow> dict_get d h = Inr (the (d h))"
  by (auto simp: dict_get_def)

lemma batch_rows:
  assumes "fst ` set batch \<subseteq> dom h2c"
  shows "map_err (\<lambda>(hashed_val, embedding).
             bind_err (dict_get h2c hashed_val)
               (\<lambda>e. Inr (new_embedding usr ftype hashed_val embedding e))) batch =
         Inr (rows_for usr ftype h2c batch)"
  unfolding rows_for_def
proof (rule map_err_Inr)
  fix x assume "x \<in> set batch"
  with assms have "fst x \<in> dom h2c" by auto
  then show "(case x of (hashed_val, embedding) \<Rightarrow>
          bind_err (dict_get h2c hashed_val) (\<lambda>e. Inr (new_embedding usr ftype hashed_val embedding e))) =
         Inr (case x of (h, v) \<Rightarrow> new_embedding usr ftype h v (the (h2c h)))"
    by (cases x) (simp add: dict_get_dom bind_err_def)
qed

lemma rows_for_concat: "rows_for usr ftype h2c (concat bs) = concat (map (rows_for usr ftype h2c) bs)"
  by (induction bs) (simp_all add: rows_for_def)

lemma rows_for_append: "rows_for usr ftype h2c (xs @ ys) = rows_for usr ftype h2c xs @ rows_for usr ftype h2c ys"
  by (simp add: rows_for_def)

lemma length_rows_for [simp]: "length (rows_for usr ftype h2c zs) = length zs"
  by (simp add: rows_for_def)

lemma create_batches_ok:
  assumes "\<forall>b \<in> set batches. fst ` set b \<subseteq> dom h2c"
  shows "snd (create_batches ex usr ftype h2c batches w n) = Inr (n + length (concat batches)) \<and>
    embeddings_objects (fst (create_batches ex usr ftype h2c batches w n)) =
      embeddings_objects w @ rows_for usr ftype h2c (concat batches) \<and>
    bulk_create_calls (fst (create_batches ex usr ftype h2c batches w n)) =
      bulk_create_calls w @ map (rows_for usr ftype h2c) batches \<and>
    embed_documents_calls (fst (create_batches ex usr ftype h2c batches w n)) =
      embed_documents_calls w"
  using assms
proof (induction batches arbitrary: w n)
  case Nil
  then show ?case by (simp add: rows_for_def)
next
  case (Cons b bs)
  from Cons.prems have b: "fst ` set b \<subseteq> dom h2c" and bs: "\<forall>b \<in> set bs. fst ` set b \<subseteq> dom h2c"
    by simp_all
  define rows where "rows = rows_for usr ftype h2c b"
  define w2 where "w2 = dates_bulk_create
      (concat (map (\<lambda>embedding. map (\<lambda>d. \<lparr> date = d, dates_embeddings = embedding \<rparr>)
          (ex (emb_raw embedding))) rows)) (bulk_create rows w)"
  have step: "create_batches ex usr ftype h2c (b # bs) w n =
      create_batches ex usr ftype h2c bs w2 (n + length rows)"
    by (simp add: batch_rows [OF b] Let_def w2_def rows_def)
  have len: "length rows = length b" by (simp add: rows_def)
  have w2: "embeddings_objects w2 = embeddings_objects w @ rows"
    "bulk_create_calls w2 = bulk_create_calls w @ [rows]"
    "embed_documents_calls w2 = embed_documents_calls w"
    by (simp_all add: w2_def dates_bulk_create_def bulk_create_def)
  have cc: "rows_for usr ftype h2c (concat (b # bs)) = rows @ rows_for usr ftype h2c (concat bs)"
    by (simp add: rows_for_append rows_def)
  from Cons.IH [OF bs, of w2 "n + length rows"] show ?case
    unfolding step cc by (simp add: w2 len rows_def)
qed


lemma set_hashes_to_process_of:
  "set (hashes_to_process_of usr ftype hashes w) =
     {h \<in> set hashes. \<not> (\<exists>r \<in> set (embeddings_objects w).
         user r = usr \<and> file_type r = ftype \<and> hashed_value r = h)}"
  by (auto simp: hashes_to_process_of_def filter_existing_def Let_def)

lemma distinct_hashes_to_process_of:
  "distinct hashes \<Longrightarrow> distinct (hashes_to_process_of usr ftype hashes w)"
  by (simp add: hashes_to_process_of_def Let_def)

lemma process_file_unfold:
  assumes "set hashes \<subseteq> dom h2c"
  shows "process_file emb ex usr ftype key h2c hashes w n =
     (let hs = hashes_to_process_of usr ftype hashes w;
          data = data_to_embed_of key h2c hs;
          w1 = w \<lparr> embed_documents_calls := embed_documents_calls w @ [data] \<rparr>
      in if length hs \<noteq> length (emb data) then (w1, Inl AssertionError)
         else create_batches ex usr ftype h2c (grouper (zip hs (emb data)) (min 200 (length hs))) w1 n)"
proof -
  let ?hs = "hashes_to_process_of usr ftype hashes w"
  have "set ?hs \<subseteq> dom h2c"
    using assms by (auto simp: set_hashes_to_process_of)
  then have "map_err (dict_get h2c) ?hs = Inr (map (\<lambda>h. the (h2c h)) ?hs)"
    by (intro map_err_Inr dict_get_dom) auto
  then show ?thesis
    by (simp add: process_file_def Let_def data_to_embed_of_def comp_def)
qed

lemma process_file_mismatch:
  assumes "set hashes \<subseteq> dom h2c"
    and "length (emb (data_to_embed_of key h2c (hashes_to_process_of usr ftype hashes w))) \<noteq>
         length (hashes_to_process_of usr ftype hashes w)"
  shows "process_file emb ex usr ftype key h2c hashes w n =
     (w \<lparr> embed_documents_calls := embed_documents_calls w @
            [data_to_embed_of key h2c (hashes_to_process_of usr ftype hashes w)] \<rparr>,
      Inl AssertionError)"
  using assms(2) by (auto simp: process_file_unfold [OF assms(1)] Let_def)

lemma process_file_match:
  assumes dom: "set hashes \<subseteq> dom h2c"
    and len: "length (emb (data_to_embed_of key h2c (hashes_to_process_of usr ftype hashes w))) =
         length (hashes_to_process_of usr ftype hashes w)"
  shows "snd (process_file emb ex usr ftype key h2c hashes w n) =
       Inr (n + length (hashes_to_process_of usr ftype hashes w)) \<and>
     embeddings_objects (fst (process_file emb ex usr ftype key h2c hashes w n)) =
       embeddings_objects w @
       rows_for usr ftype h2c (zip (hashes_to_process_of usr ftype hashes w)
          (emb (data_to_embed_of key h2c (hashes_to_process_of usr ftype hashes w)))) \<and>
     bulk_create_calls (fst (process_file emb ex usr ftype key h2c hashes w n)) =
       bulk_create_calls w @
       map (rows_for usr ftype h2c)
         (grouper (zip (hashes_to_process_of usr ftype hashes w)
            (emb (data_to_embed_of key h2c (hashes_to_process_of usr ftype hashes w))))
            (min 200 (length (hashes_to_process_of usr ftype hashes w)))) \<and>
     embed_documents_calls (fst (process_file emb ex usr ftype key h2c hashes w n)) =
       embed_documents_calls w @ [data_to_embed_of key h2c (hashes_to_process_of usr ftype hashes w)]"
proof -
  define hs where "hs = hashes_to_process_of usr ftype hashes w"
  define data where "data = data_to_embed_of key h2c hs"
  define zs where "zs = zip hs (emb data)"
  define w1 where "w1 = w \<lparr> embed_documents_calls := embed_documents_calls w @ [data] \<rparr>"
  from len have l: "length (emb data) = length hs" by (simp add: hs_def data_def)
  have pf: "process_file emb ex usr ftype key h2c hashes w n =
      create_batches ex usr ftype h2c (grouper zs (min 200 (length hs))) w1 n"
    using l by (simp add: process_file_unfold [OF dom] Let_def hs_def data_def zs_def w1_def)
  have "set hs \<subseteq> dom h2c"
    using dom by (auto simp: hs_def set_hashes_to_process_of)
  then have zd: "fst ` set zs \<subseteq> dom h2c"
    by (auto simp: zs_def dest: set_zip_leftD)
  have bd: "\<forall>b \<in> set (grouper zs (min 200 (length hs))). fst ` set b \<subseteq> dom h2c"
  proof
    fix b assume "b \<in> set (grouper zs (min 200 (length hs)))"
    then have "set b \<subseteq> set zs" by (simp add: grouper_bounds)
    with zd show "fst ` set b \<subseteq> dom h2c" by auto
  qed
  have cc: "concat (grouper zs (min 200 (length hs))) = zs"
  proof (cases "hs = []")
    case True
    then show ?thesis by (simp add: zs_def)
  next
    case False
    then show ?thesis by (simp add: concat_grouper)
  qed
  have lz: "length zs = length hs" using l by (simp add: zs_def)
  have w1: "embeddings_objects w1 = embeddings_objects w" "bulk_create_calls w1 = bulk_create_calls w"
    "embed_documents_calls w1 = embed_documents_calls w @ [data]"
    by (simp_all add: w1_def)
  from create_batches_ok [OF bd, of ex usr ftype w1 n]
  show ?thesis
    unfolding pf cc w1 lz
    unfolding hs_def [symmetric] data_def [symmetric] zs_def [symmetric] .
qed


lemma hashed_value_rows_for: "map hashed_value (rows_for usr ftype h2c zs) = map fst zs"
  by (induction zs) (auto simp: rows_for_def new_embedding_def)

lemma rows_for_elem:
  assumes "r \<in> set (rows_for usr ftype h2c zs)"
  shows "user r = usr \<and> file_type r = ftype \<and> hashed_value r \<in> fst ` set zs \<and>
     r = new_embedding usr ftype (hashed_value r) (embeddings r) (the (h2c (hashed_value r)))"
  using assms by (force simp: rows_for_def new_embedding_def)

lemma process_file_summary:
  assumes dom: "set hashes \<subseteq> dom h2c" and dist: "distinct hashes"
  shows "\<exists>rows bs data.
     embeddings_objects (fst (process_file emb exd usr ftype key h2c hashes w n)) = embeddings_objects w @ rows \<and>
     bulk_create_calls (fst (process_file emb exd usr ftype key h2c hashes w n)) = bulk_create_calls w @ bs \<and>
     concat bs = rows \<and> (\<forall>b \<in> set bs. b \<noteq> [] \<and> length b \<le> 200) \<and>
     embed_documents_calls (fst (process_file emb exd usr ftype key h2c hashes w n)) =
       embed_documents_calls w @ [data] \<and>
     created_rows_ok usr ftype h2c (embeddings_objects w) rows \<and>
     (snd (process_file emb exd usr ftype key h2c hashes w n) = Inl AssertionError \<and> rows = [] \<or>
      snd (process_file emb exd usr ftype key h2c hashes w n) = Inr (n + length rows) \<and>
      length data = length rows)"
proof -
  define hs where "hs = hashes_to_process_of usr ftype hashes w"
  define data where "data = data_to_embed_of key h2c hs"
  define zs where "zs = zip hs (emb data)"
  show ?thesis
  proof (cases "length (emb data) = length hs")
    case False
    then have "process_file emb exd usr ftype key h2c hashes w n =
       (w \<lparr> embed_documents_calls := embed_documents_calls w @ [data] \<rparr>, Inl AssertionError)"
      unfolding hs_def data_def by (rule process_file_mismatch [OF dom])
    then show ?thesis
      by (intro exI [of _ "[]"] exI [of _ data]) (simp add: created_rows_ok_def)
  next
    case True
    define rows where "rows = rows_for usr ftype h2c zs"
    define bs where "bs = map (rows_for usr ftype h2c) (grouper zs (min 200 (length hs)))"
    from True have m: "snd (process_file emb exd usr ftype key h2c hashes w n) = Inr (n + length hs)"
      "embeddings_objects (fst (process_file emb exd usr ftype key h2c hashes w n)) = embeddings_objects w @ rows"
      "bulk_create_calls (fst (process_file emb exd usr ftype key h2c hashes w n)) = bulk_create_calls w @ bs"
      "embed_documents_calls (fst (process_file emb exd usr ftype key h2c hashes w n)) =
         embed_documents_calls w @ [data]"
      using process_file_match [OF dom, of emb key usr ftype w exd n]
      unfolding hs_def data_def zs_def rows_def bs_def by simp_all
    have lz: "length zs = length hs" using True by (simp add: zs_def)
    have fz: "map fst zs = hs" using True by (simp add: zs_def)
    have cc: "concat (grouper zs (min 200 (length hs))) = zs"
    proof (cases "hs = []")
      case True
      then show ?thesis by (simp add: zs_def)
    next
      case False
      then show ?thesis by (simp add: concat_grouper)
    qed
    have cb: "concat bs = rows"
      unfolding bs_def rows_def rows_for_concat [symmetric] cc ..
    have bb: "\<forall>b \<in> set bs. b \<noteq> [] \<and> length b \<le> 200"
    proof
      fix b assume "b \<in> set bs"
      then obtain b' where b': "b' \<in> set (grouper zs (min 200 (length hs)))"
        and b: "b = rows_for usr ftype h2c b'"
        by (auto simp: bs_def)
      from grouper_bounds [OF b'] have "b' \<noteq> []" "length b' \<le> 200" by simp_all
      with b show "b \<noteq> [] \<and> length b \<le> 200"
        by (simp add: rows_for_def)
    qed
    have hv: "map hashed_value rows = hs"
      by (simp add: rows_def hashed_value_rows_for fz)
    have dh: "distinct hs"
      unfolding hs_def using dist by (rule distinct_hashes_to_process_of)
    have ok: "created_rows_ok usr ftype h2c (embeddings_objects w) rows"
      unfolding created_rows_ok_def
    proof (intro conjI ballI)
      show "distinct (map hashed_value rows)" using hv dh by simp
    next
      fix r assume r: "r \<in> set rows"
      from rows_for_elem [OF r [unfolded rows_def]]
      show "user r = usr" "file_type r = ftype"
        "r = new_embedding usr ftype (hashed_value r) (embeddings r) (the (h2c (hashed_value r)))"
        by simp_all
      from r have "hashed_value r \<in> set (map hashed_value rows)" by simp
      then have h: "hashed_value r \<in> set hs" by (simp only: hv)
      then show "hashed_value r \<in> dom h2c"
        using dom by (auto simp: hs_def set_hashes_to_process_of)
      from h show "\<not> (\<exists>r' \<in> set (embeddings_objects w).
          user r' = usr \<and> file_type r' = ftype \<and> hashed_value r' = hashed_value r)"
        by (simp add: hs_def set_hashes_to_process_of)
    qed
    have lr: "length rows = length hs" by (simp add: rows_def lz)
    have ld: "length data = length hs" by (simp add: data_def data_to_embed_of_def)
    from m cb bb ok lr ld show ?thesis
      by (intro exI [of _ rows] exI [of _ bs] exI [of _ data]) simp
  qed
qed


lemma created_rows_ok_Nil [simp]: "created_rows_ok usr ftype h2c old []"
  by (simp add: created_rows_ok_def)

lemma created_rows_ok_append:
  assumes 1: "created_rows_ok usr ftype h2c old rows1"
    and 2: "created_rows_ok usr ftype h2c (old @ rows1) rows2"
  shows "created_rows_ok usr ftype h2c old (rows1 @ rows2)"
proof -
  have disj: "hashed_value ` set rows1 \<inter> hashed_value ` set rows2 = {}"
  proof (rule ccontr)
    assume "hashed_value ` set rows1 \<inter> hashed_value ` set rows2 \<noteq> {}"
    then obtain r1 r2 where r: "r1 \<in> set rows1" "r2 \<in> set rows2" "hashed_value r1 = hashed_value r2"
      by auto
    from 1 r(1) have "user r1 = usr \<and> file_type r1 = ftype"
      by (simp add: created_rows_ok_def)
    moreover from 2 r(2) have "\<not> (\<exists>r' \<in> set (old @ rows1).
        user r' = usr \<and> file_type r' = ftype \<and> hashed_value r' = hashed_value r2)"
      by (simp add: created_rows_ok_def)
    ultimately show False using r(1,3) by auto
  qed
  from 1 2 have "distinct (map hashed_value rows1)" "distinct (map hashed_value rows2)"
    by (simp_all add: created_rows_ok_def)
  with disj have d: "distinct (map hashed_value (rows1 @ rows2))" by simp
  have "\<forall>r \<in> set (rows1 @ rows2).
        user r = usr \<and> file_type r = ftype \<and> hashed_value r \<in> dom h2c \<and>
        r = new_embedding usr ftype (hashed_value r) (embeddings r) (the (h2c (hashed_value r))) \<and>
        \<not> (\<exists>r' \<in> set old. user r' = usr \<and> file_type r' = ftype \<and> hashed_value r' = hashed_value r)"
  proof
    fix r assume "r \<in> set (rows1 @ rows2)"
    then consider "r \<in> set rows1" | "r \<in> set rows2" by auto
    then show "user r = usr \<and> file_type r = ftype \<and> hashed_value r \<in> dom h2c \<and>
        r = new_embedding usr ftype (hashed_value r) (embeddings r) (the (h2c (hashed_value r))) \<and>
        \<not> (\<exists>r' \<in> set old. user r' = usr \<and> file_type r' = ftype \<and> hashed_value r' = hashed_value r)"
    proof cases
      case 1
      with assms(1) show ?thesis unfolding created_rows_ok_def by blast
    next
      case 2
      with assms(2) show ?thesis unfolding created_rows_ok_def by auto
    qed
  qed
  with d show ?thesis unfolding created_rows_ok_def by blast
qed

lemma process_files_summary:
  assumes "\<forall>(f, hs) \<in> set files. set hs \<subseteq> dom h2c \<and> distinct hs"
  shows "\<exists>rows bs calls.
     embeddings_objects (fst (process_files emb exd usr ftype key h2c files w n)) = embeddings_objects w @ rows \<and>
     bulk_create_calls (fst (process_files emb exd usr ftype key h2c files w n)) = bulk_create_calls w @ bs \<and>
     concat bs = rows \<and> (\<forall>b \<in> set bs. b \<noteq> [] \<and> length b \<le> 200) \<and>
     embed_documents_calls (fst (process_files emb exd usr ftype key h2c files w n)) =
       embed_documents_calls w @ calls \<and>
     created_rows_ok usr ftype h2c (embeddings_objects w) rows \<and>
     (snd (process_files emb exd usr ftype key h2c files w n) = Inl AssertionError \<and>
        length calls \<le> length files \<or>
      snd (process_files emb exd usr ftype key h2c files w n) = Inr (n + length rows) \<and>
        length calls = length files \<and> sum_list (map length calls) = length rows)"
  using assms
proof (induction files arbitrary: w n)
  case Nil
  show ?case
    by (intro exI [of _ "[]"]) simp
next
  case (Cons fh rest)
  obtain f hashes where fh: "fh = (f, hashes)" by (cases fh)
  from Cons.prems fh have dom: "set hashes \<subseteq> dom h2c" and dist: "distinct hashes"
    and rest: "\<forall>(f, hs) \<in> set rest. set hs \<subseteq> dom h2c \<and> distinct hs"
    by simp_all
  define R1 where "R1 = process_file emb exd usr ftype key h2c hashes w n"
  from process_file_summary [OF dom dist, of emb exd usr ftype key w n]
  obtain rows1 bs1 data where
    e1: "embeddings_objects (fst R1) = embeddings_objects w @ rows1" and
    b1: "bulk_create_calls (fst R1) = bulk_create_calls w @ bs1" and
    c1: "concat bs1 = rows1" and
    bb1: "\<forall>b \<in> set bs1. b \<noteq> [] \<and> length b \<le> 200" and
    d1: "embed_documents_calls (fst R1) = embed_documents_calls w @ [data]" and
    ok1: "created_rows_ok usr ftype h2c (embeddings_objects w) rows1" and
    r1: "snd R1 = Inl AssertionError \<and> rows1 = [] \<or>
         snd R1 = Inr (n + length rows1) \<and> length data = length rows1"
    unfolding R1_def by blast
  from r1 show ?case
  proof
    assume a: "snd R1 = Inl AssertionError \<and> rows1 = []"
    then obtain w1 where R1eq: "R1 = (w1, Inl AssertionError)" by (cases R1) auto
    have pf: "process_files emb exd usr ftype key h2c (fh # rest) w n = R1"
      unfolding fh process_files.simps R1_def [symmetric] unfolding R1eq by simp
    from a e1 b1 c1 bb1 d1 ok1 show ?thesis
      unfolding pf
      by (intro exI [of _ rows1] exI [of _ bs1] exI [of _ "[data]"]) simp
  next
    assume a: "snd R1 = Inr (n + length rows1) \<and> length data = length rows1"
    then obtain w1 where R1eq: "R1 = (w1, Inr (n + length rows1))" by (cases R1) auto
    have pf: "process_files emb exd usr ftype key h2c (fh # rest) w n =
        process_files emb exd usr ftype key h2c rest (fst R1) (n + length rows1)"
      unfolding fh process_files.simps R1_def [symmetric] unfolding R1eq by simp
    define R2 where "R2 = process_files emb exd usr ftype key h2c rest (fst R1) (n + length rows1)"
    from Cons.IH [OF rest, of "fst R1" "n + length rows1"]
    obtain rows2 bs2 calls2 where
      e2: "embeddings_objects (fst R2) = embeddings_objects (fst R1) @ rows2" and
      b2: "bulk_create_calls (fst R2) = bulk_create_calls (fst R1) @ bs2" and
      c2: "concat bs2 = rows2" and
      bb2: "\<forall>b \<in> set bs2. b \<noteq> [] \<and> length b \<le> 200" and
      d2: "embed_documents_calls (fst R2) = embed_documents_calls (fst R1) @ calls2" and
      ok2: "created_rows_ok usr ftype h2c (embeddings_objects (fst R1)) rows2" and
      r2: "snd R2 = Inl AssertionError \<and> length calls2 \<le> length rest \<or>
           snd R2 = Inr (n + length rows1 + length rows2) \<and> length calls2 = length rest \<and>
             sum_list (map length calls2) = length rows2"
      unfolding R2_def by blast
    from ok1 ok2 have ok: "created_rows_ok usr ftype h2c (embeddings_objects w) (rows1 @ rows2)"
      unfolding e1 by (rule created_rows_ok_append)
    have e: "embeddings_objects (fst R2) = embeddings_objects w @ (rows1 @ rows2)"
      by (simp add: e2 e1)
    have b: "bulk_create_calls (fst R2) = bulk_create_calls w @ (bs1 @ bs2)"
      by (simp add: b2 b1)
    have c: "concat (bs1 @ bs2) = rows1 @ rows2" by (simp add: c1 c2)
    have bb: "\<forall>b \<in> set (bs1 @ bs2). b \<noteq> [] \<and> length b \<le> 200"
      using bb1 bb2 by auto
    have d: "embed_documents_calls (fst R2) = embed_documents_calls w @ (data # calls2)"
      by (simp add: d2 d1)
    have r: "snd R2 = Inl AssertionError \<and> length (data # calls2) \<le> length (fh # rest) \<or>
        snd R2 = Inr (n + length (rows1 @ rows2)) \<and> length (data # calls2) = length (fh # rest) \<and>
          sum_list (map length (data # calls2)) = length (rows1 @ rows2)"
      using r2 a by (auto simp: add.assoc)
    from e b c bb d ok r show ?thesis
      unfolding pf R2_def [symmetric]
      by (intro exI [of _ "rows1 @ rows2"] exI [of _ "bs1 @ bs2"] exI [of _ "data # calls2"] conjI)
  qed
qed


lemma setdefault_add_inv:
  assumes "\<forall>(f, hs) \<in> set d. distinct hs \<and> set hs \<subseteq> S" and "v \<in> S"
  shows "\<forall>(f, hs) \<in> set (setdefault_add d k v). distinct hs \<and> set hs \<subseteq> S"
  using assms by (induction d k v rule: setdefault_add.induct) (auto simp: set_add_def)

lemma setdefault_add_keys:
  "map fst (setdefault_add d k v) = (if k \<in> fst ` set d then map fst d else map fst d @ [k])"
  by (induction d k v rule: setdefault_add.induct) auto

lemma foldl_setdefault_add_inv:
  assumes "\<forall>(f, hs) \<in> set d. distinct hs \<and> set hs \<subseteq> S" and "h ` set es \<subseteq> S"
  shows "\<forall>(f, hs) \<in> set (foldl (\<lambda>d e. setdefault_add d (g e) (h e)) d es). distinct hs \<and> set hs \<subseteq> S"
  using assms
proof (induction es arbitrary: d)
  case Nil
  then show ?case by simp
next
  case (Cons e es)
  from Cons.prems have "\<forall>(f, hs) \<in> set (setdefault_add d (g e) (h e)). distinct hs \<and> set hs \<subseteq> S"
    by (intro setdefault_add_inv) auto
  with Cons.IH [of "setdefault_add d (g e) (h e)"] Cons.prems(2) show ?case by simp
qed

lemma foldl_setdefault_add_keys:
  assumes "distinct (map fst d)"
  shows "distinct (map fst (foldl (\<lambda>d e. setdefault_add d (g e) (h e)) d es)) \<and>
     set (map fst (foldl (\<lambda>d e. setdefault_add d (g e) (h e)) d es)) = fst ` set d \<union> g ` set es"
  using assms
proof (induction es arbitrary: d)
  case Nil
  then show ?case by simp
next
  case (Cons e es)
  from Cons.prems have d: "distinct (map fst (setdefault_add d (g e) (h e)))"
    by (auto simp: setdefault_add_keys)
  have s: "fst ` set (setdefault_add d (g e) (h e)) = insert (g e) (fst ` set d)"
    using arg_cong [OF setdefault_add_keys [of d "g e" "h e"], of set] by (auto split: if_splits)
  from Cons.IH [OF d] s show ?case by auto
qed

lemma hashes_by_file_of_inv:
  "\<forall>(f, hs) \<in> set (hashes_by_file_of md5 key es).
     distinct hs \<and> set hs \<subseteq> hash_func md5 key ` set es"
  unfolding hashes_by_file_of_def
  by (rule foldl_setdefault_add_inv) simp_all

lemma hashes_by_file_of_files:
  "distinct (map fst (hashes_by_file_of md5 key es)) \<and>
   set (map fst (hashes_by_file_of md5 key es)) = file ` set es"
  unfolding hashes_by_file_of_def
  using foldl_setdefault_add_keys [of "[]" "file" "hash_func md5 key" es] by simp

lemma length_hashes_by_file_of:
  "length (hashes_by_file_of md5 key es) = card (file ` set es)"
  using hashes_by_file_of_files [of md5 key es]
    distinct_card [of "map fst (hashes_by_file_of md5 key es)"]
  by simp

lemma dom_hash_to_current_entries:
  "dom (py_dict (zip (map f es) es)) = f ` set es"
  by (auto simp: py_dict_zip_map dom_def)

lemma the_hash_to_current_entries:
  "h \<in> f ` set es \<Longrightarrow> the (py_dict (zip (map f es) es) h) = entry_for f es h"
  by (simp add: py_dict_zip_map entry_for_def)

text \<open>The deletion passes leave the logs alone.\<close>

lemma delete_where_logs [simp]:
  "embed_documents_calls (fst (delete_where P w)) = embed_documents_calls w"
  "bulk_create_calls (fst (delete_where P w)) = bulk_create_calls w"
  by (simp_all add: delete_where_def)

lemma delete_stale_logs [simp]:
  "embed_documents_calls (fst (delete_stale usr files w n)) = embed_documents_calls w \<and>
   bulk_create_calls (fst (delete_stale usr files w n)) = bulk_create_calls w"
  by (induction usr files w n rule: delete_stale.induct)
     (simp_all add: delete_stale_file_def delete_embedding_by_hash_def Let_def)

lemma delete_files_logs [simp]:
  "embed_documents_calls (fst (delete_files usr fps w n)) = embed_documents_calls w \<and>
   bulk_create_calls (fst (delete_files usr fps w n)) = bulk_create_calls w"
proof (induction usr fps w n rule: delete_files.induct)
  case (1 usr w n)
  then show ?case by simp
next
  case (2 usr fp rest w n)
  obtain w' c where d: "delete_embedding_by_file usr fp w = (w', c)"
    by (cases "delete_embedding_by_file usr fp w")
  then have "w' = fst (delete_where (\<lambda>r. user r = usr \<and> file_path r = fp) w)"
    by (simp add: delete_embedding_by_file_def)
  then have "embed_documents_calls w' = embed_documents_calls w" "bulk_create_calls w' = bulk_create_calls w"
    by simp_all
  with 2 [OF d [symmetric]] d show ?case by simp
qed

lemma start_world_logs [simp]:
  "embed_documents_calls (start_world usr ftype regenerate w) = embed_documents_calls w"
  "bulk_create_calls (start_world usr ftype regenerate w) = bulk_create_calls w"
  by (simp_all add: start_world_def delete_all_embeddings_def)

lemma update_embeddings_error:
  assumes "snd (creation_phase md5 emb exd es ftype key usr regenerate w) = Inl err"
  shows "update_embeddings md5 emb exd es ftype key del usr regenerate w =
     (fst (creation_phase md5 emb exd es ftype key usr regenerate w), Inl err)"
proof -
  obtain w1 where "creation_phase md5 emb exd es ftype key usr regenerate w = (w1, Inl err)"
    using assms by (cases "creation_phase md5 emb exd es ftype key usr regenerate w") auto
  then show ?thesis
    by (auto simp: update_embeddings_def creation_phase_def start_world_def Let_def
        split: prod.splits if_splits)
qed

lemma update_embeddings_success:
  assumes "snd (creation_phase md5 emb exd es ftype key usr regenerate w) = Inr c"
  shows "\<exists>d. snd (update_embeddings md5 emb exd es ftype key del usr regenerate w) = Inr (c, d)"
    and "embed_documents_calls (fst (update_embeddings md5 emb exd es ftype key del usr regenerate w)) =
         embed_documents_calls (fst (creation_phase md5 emb exd es ftype key usr regenerate w))"
    and "bulk_create_calls (fst (update_embeddings md5 emb exd es ftype key del usr regenerate w)) =
         bulk_create_calls (fst (creation_phase md5 emb exd es ftype key usr regenerate w))"
proof -
  obtain w1 where cp: "creation_phase md5 emb exd es ftype key usr regenerate w = (w1, Inr c)"
    using assms by (cases "creation_phase md5 emb exd es ftype key usr regenerate w") auto
  define n0 where "n0 = (if regenerate then snd (delete_all_embeddings usr ftype w) else 0)"
  define S where "S = delete_stale usr (hashes_by_file_of md5 key es) w1 n0"
  define D where "D = (case del of None \<Rightarrow> S | Some fps \<Rightarrow> delete_files usr fps (fst S) (snd S))"
  have u: "update_embeddings md5 emb exd es ftype key del usr regenerate w = (fst D, Inr (c, snd D))"
    using cp
    by (auto simp: update_embeddings_def creation_phase_def start_world_def Let_def D_def S_def n0_def
        split: prod.splits if_splits option.splits)
  have l: "embed_documents_calls (fst D) = embed_documents_calls w1"
    "bulk_create_calls (fst D) = bulk_create_calls w1"
    by (simp_all add: D_def S_def split: option.splits)
  from u show "\<exists>d. snd (update_embeddings md5 emb exd es ftype key del usr regenerate w) = Inr (c, d)"
    by simp
  from u l cp show "embed_documents_calls (fst (update_embeddings md5 emb exd es ftype key del usr regenerate w)) =
         embed_documents_calls (fst (creation_phase md5 emb exd es ftype key usr regenerate w))"
    "bulk_create_calls (fst (update_embeddings md5 emb exd es ftype key del usr regenerate w)) =
         bulk_create_calls (fst (creation_phase md5 emb exd es ftype key usr regenerate w))"
    by simp_all
qed


lemma creation_phase_summary:
  "\<exists>rows bs calls.
     embeddings_objects (fst (creation_phase md5 emb exd es ftype key usr regenerate w)) =
       embeddings_objects (start_world usr ftype regenerate w) @ rows \<and>
     bulk_create_calls (fst (creation_phase md5 emb exd es ftype key usr regenerate w)) =
       bulk_create_calls w @ bs \<and>
     concat bs = rows \<and> (\<forall>b \<in> set bs. b \<noteq> [] \<and> length b \<le> 200) \<and>
     embed_documents_calls (fst (creation_phase md5 emb exd es ftype key usr regenerate w)) =
       embed_documents_calls w @ calls \<and>
     created_rows_ok usr ftype (py_dict (zip (map (hash_func md5 key) es) es))
       (embeddings_objects (start_world usr ftype regenerate w)) rows \<and>
     (snd (creation_phase md5 emb exd es ftype key usr regenerate w) = Inl AssertionError \<and>
        length calls \<le> card (file ` set es) \<or>
      snd (creation_phase md5 emb exd es ftype key usr regenerate w) = Inr (length rows) \<and>
        length calls = card (file ` set es) \<and> sum_list (map length calls) = length rows)"
proof -
  have "\<forall>(f, hs) \<in> set (hashes_by_file_of md5 key es).
      set hs \<subseteq> dom (py_dict (zip (map (hash_func md5 key) es) es)) \<and> distinct hs"
    using hashes_by_file_of_inv [of md5 key es]
    by (auto simp: dom_hash_to_current_entries)
  from process_files_summary [OF this, of emb exd usr ftype key "start_world usr ftype regenerate w" 0]
  show ?thesis
    unfolding creation_phase_def [symmetric] length_hashes_by_file_of start_world_logs
    by simp
qed

lemma update_embeddings_logs:
  "embed_documents_calls (fst (update_embeddings md5 emb exd es ftype key del usr regenerate w)) =
     embed_documents_calls (fst (creation_phase md5 emb exd es ftype key usr regenerate w)) \<and>
   bulk_create_calls (fst (update_embeddings md5 emb exd es ftype key del usr regenerate w)) =
     bulk_create_calls (fst (creation_phase md5 emb exd es ftype key usr regenerate w))"
proof (cases "snd (creation_phase md5 emb exd es ftype key usr regenerate w)")
  case (Inl err)
  then show ?thesis by (simp add: update_embeddings_error)
next
  case (Inr c)
  then show ?thesis by (simp add: update_embeddings_success)
qed

text \<open>
  C10 (cross-file hash dedup). In one run, the records created (the arguments of
  the \<open>bulk_create\<close> calls the run adds to the log) have pairwise different
  hashes, so several current entries with the same hash, in whatever files, give
  at most one new record; and the text fields and the file of a created record
  are those of the last entry of the input list with its hash.
\<close>

theorem update_embeddings_one_record_per_hash:
  "\<exists>batches.
     bulk_create_calls (fst (update_embeddings md5 embed_documents extract_dates current_entries ftype key
        deletion_filenames usr regenerate w)) = bulk_create_calls w @ batches \<and>
     distinct (map hashed_value (concat batches)) \<and>
     (\<forall>r \<in> set (concat batches).
        hashed_value r \<in> hash_func md5 key ` set current_entries \<and>
        user r = usr \<and> file_type r = ftype \<and>
        emb_raw r = raw (entry_for (hash_func md5 key) current_entries (hashed_value r)) \<and>
        emb_compiled r = compiled (entry_for (hash_func md5 key) current_entries (hashed_value r)) \<and>
        emb_heading r = take 1000 (heading (entry_for (hash_func md5 key) current_entries (hashed_value r))) \<and>
        file_path r = file (entry_for (hash_func md5 key) current_entries (hashed_value r)) \<and>
        emb_corpus_id r = corpus_id (entry_for (hash_func md5 key) current_entries (hashed_value r)))"
proof -
  let ?f = "hash_func md5 key"
  let ?h2c = "py_dict (zip (map ?f current_entries) current_entries)"
  from creation_phase_summary [of md5 embed_documents extract_dates current_entries ftype key usr regenerate w]
  obtain rows bs where
    b: "bulk_create_calls (fst (creation_phase md5 embed_documents extract_dates current_entries ftype key
          usr regenerate w)) = bulk_create_calls w @ bs" and
    c: "concat bs = rows" and
    ok: "created_rows_ok usr ftype ?h2c (embeddings_objects (start_world usr ftype regenerate w)) rows"
    by blast
  have 1: "bulk_create_calls (fst (update_embeddings md5 embed_documents extract_dates current_entries ftype key
        deletion_filenames usr regenerate w)) = bulk_create_calls w @ bs"
    using b by (simp add: update_embeddings_logs)
  from ok c have 2: "distinct (map hashed_value (concat bs))"
    by (simp add: created_rows_ok_def)
  have 3: "\<forall>r \<in> set (concat bs).
        hashed_value r \<in> ?f ` set current_entries \<and>
        user r = usr \<and> file_type r = ftype \<and>
        emb_raw r = raw (entry_for ?f current_entries (hashed_value r)) \<and>
        emb_compiled r = compiled (entry_for ?f current_entries (hashed_value r)) \<and>
        emb_heading r = take 1000 (heading (entry_for ?f current_entries (hashed_value r))) \<and>
        file_path r = file (entry_for ?f current_entries (hashed_value r)) \<and>
        emb_corpus_id r = corpus_id (entry_for ?f current_entries (hashed_value r))"
  proof
    fix r assume "r \<in> set (concat bs)"
    with c have r: "r \<in> set rows" by simp
    with ok have u: "user r = usr" "file_type r = ftype" and d: "hashed_value r \<in> dom ?h2c"
      and n: "r = new_embedding usr ftype (hashed_value r) (embeddings r) (the (?h2c (hashed_value r)))"
      unfolding created_rows_ok_def by blast+
    from d have h: "hashed_value r \<in> ?f ` set current_entries"
      by (simp only: dom_hash_to_current_entries)
    then have "the (?h2c (hashed_value r)) = entry_for ?f current_entries (hashed_value r)"
      by (rule the_hash_to_current_entries)
    with n have "r = new_embedding usr ftype (hashed_value r) (embeddings r)
        (entry_for ?f current_entries (hashed_value r))"
      by simp
    then have "emb_raw r = raw (entry_for ?f current_entries (hashed_value r)) \<and>
       emb_compiled r = compiled (entry_for ?f current_entries (hashed_value r)) \<and>
       emb_heading r = take 1000 (heading (entry_for ?f current_entries (hashed_value r))) \<and>
       file_path r = file (entry_for ?f current_entries (hashed_value r)) \<and>
       emb_corpus_id r = corpus_id (entry_for ?f current_entries (hashed_value r))"
      by (metis new_embedding_def embeddings_row.select_convs(3,4,5,6,9))
    with h u show "hashed_value r \<in> ?f ` set current_entries \<and>
        user r = usr \<and> file_type r = ftype \<and>
        emb_raw r = raw (entry_for ?f current_entries (hashed_value r)) \<and>
        emb_compiled r = compiled (entry_for ?f current_entries (hashed_value r)) \<and>
        emb_heading r = take 1000 (heading (entry_for ?f current_entries (hashed_value r))) \<and>
        file_path r = file (entry_for ?f current_entries (hashed_value r)) \<and>
        emb_corpus_id r = corpus_id (entry_for ?f current_entries (hashed_value r))"
      by simp
  qed
  from 1 2 3 show ?thesis by blast
qed



lemma process_files_append:
  "process_files emb exd usr ftype key h2c pre w n = (w1, Inr n1) \<Longrightarrow>
   process_files emb exd usr ftype key h2c (pre @ rest) w n =
     process_files emb exd usr ftype key h2c rest w1 n1"
proof (induction pre arbitrary: w n)
  case Nil
  then show ?case by simp
next
  case (Cons fh pre)
  obtain f hashes where fh: "fh = (f, hashes)" by (cases fh)
  obtain w' r where pf: "process_file emb exd usr ftype key h2c hashes w n = (w', r)"
    by (cases "process_file emb exd usr ftype key h2c hashes w n")
  show ?case
  proof (cases r)
    case (Inl err)
    with Cons.prems fh pf show ?thesis by simp
  next
    case (Inr n')
    with Cons.prems fh pf have "process_files emb exd usr ftype key h2c pre w' n' = (w1, Inr n1)"
      by simp
    from Cons.IH [OF this] fh pf Inr show ?thesis by simp
  qed
qed

lemma length_data_to_embed_of [simp]: "length (data_to_embed_of key h2c hs) = length hs"
  by (simp add: data_to_embed_of_def)

text \<open>
  C6 (embedding-count mismatch is fatal). When the files before \<open>f\<close> have been
  processed and the embedding model returns, for the texts of \<open>f\<close>, a number
  of vectors that differs from the number of texts, the run ends with
  \<open>AssertionError\<close>. The state it leaves is the one reached before \<open>f\<close> plus
  the logged call: no record was created from those vectors, and no later file
  and no deletion pass was run.
\<close>

theorem update_embeddings_count_mismatch_fatal:
  assumes files: "hashes_by_file_of md5 key current_entries = pre @ (f, hashes_for_file) # post"
    and before: "process_files embed_documents extract_dates usr ftype key
        (py_dict (zip (map (hash_func md5 key) current_entries) current_entries))
        pre (start_world usr ftype regenerate w) 0 = (w1, Inr n1)"
    and mismatch: "length (embed_documents (data_to_embed_of key
          (py_dict (zip (map (hash_func md5 key) current_entries) current_entries))
          (hashes_to_process_of usr ftype hashes_for_file w1))) \<noteq>
        length (data_to_embed_of key
          (py_dict (zip (map (hash_func md5 key) current_entries) current_entries))
          (hashes_to_process_of usr ftype hashes_for_file w1))"
  shows "update_embeddings md5 embed_documents extract_dates current_entries ftype key
           deletion_filenames usr regenerate w =
         (w1 \<lparr> embed_documents_calls := embed_documents_calls w1 @
               [data_to_embed_of key
                  (py_dict (zip (map (hash_func md5 key) current_entries) current_entries))
                  (hashes_to_process_of usr ftype hashes_for_file w1)] \<rparr>,
          Inl AssertionError)"
proof -
  let ?h2c = "py_dict (zip (map (hash_func md5 key) current_entries) current_entries)"
  let ?w1' = "w1 \<lparr> embed_documents_calls := embed_documents_calls w1 @
               [data_to_embed_of key ?h2c (hashes_to_process_of usr ftype hashes_for_file w1)] \<rparr>"
  have "(f, hashes_for_file) \<in> set (hashes_by_file_of md5 key current_entries)"
    by (simp add: files)
  with hashes_by_file_of_inv [of md5 key current_entries]
  have dom: "set hashes_for_file \<subseteq> dom ?h2c"
    by (auto simp: dom_hash_to_current_entries)
  from mismatch have "length (embed_documents (data_to_embed_of key ?h2c
          (hashes_to_process_of usr ftype hashes_for_file w1))) \<noteq>
        length (hashes_to_process_of usr ftype hashes_for_file w1)"
    by simp
  then have pf: "process_file embed_documents extract_dates usr ftype key ?h2c hashes_for_file w1 n1 =
      (?w1', Inl AssertionError)"
    by (rule process_file_mismatch [OF dom])
  have "creation_phase md5 embed_documents extract_dates current_entries ftype key usr regenerate w =
      process_files embed_documents extract_dates usr ftype key ?h2c ((f, hashes_for_file) # post) w1 n1"
    unfolding creation_phase_def files by (rule process_files_append [OF before])
  also have "\<dots> = (?w1', Inl AssertionError)"
    by (simp add: pf)
  finally have cp: "creation_phase md5 embed_documents extract_dates current_entries ftype key usr regenerate w =
      (?w1', Inl AssertionError)" .
  then have "snd (creation_phase md5 embed_documents extract_dates current_entries ftype key usr regenerate w) =
      Inl AssertionError" by simp
  from update_embeddings_error [OF this, of deletion_filenames] cp show ?thesis by simp
qed

text \<open>
  A run on an empty store in which the text \<open>x\<close> occurs in the files \<open>f\<close> and
  \<open>g\<close>: one record is created for it, with the fields of its last entry.
\<close>

lemma update_example:
  "update_embeddings (\<lambda>s. s) (map length) (\<lambda>t. ([] :: nat list))
     [\<lparr> raw = ''x'', compiled = ''x'', heading = ''in f'', file = ''f'', corpus_id = None \<rparr>,
      \<lparr> raw = ''x'', compiled = ''x'', heading = ''in g'', file = ''g'', corpus_id = None \<rparr>,
      \<lparr> raw = ''y'', compiled = ''y'', heading = ''in g'', file = ''g'', corpus_id = None \<rparr>]
     ''org'' KeyCompiled None (Some 1) False
     \<lparr> embeddings_objects = [], embeddings_dates_objects = [], embed_documents_calls = [],
       bulk_create_calls = [] \<rparr> =
   (\<lparr> embeddings_objects =
        [\<lparr> user = Some 1, embeddings = 1, emb_raw = ''x'', emb_compiled = ''x'', emb_heading = ''in g'',
           file_path = ''g'', file_type = ''org'', hashed_value = ''x'', emb_corpus_id = None \<rparr>,
         \<lparr> user = Some 1, embeddings = 1, emb_raw = ''y'', emb_compiled = ''y'', emb_heading = ''in g'',
           file_path = ''g'', file_type = ''org'', hashed_value = ''y'', emb_corpus_id = None \<rparr>],
      embeddings_dates_objects = [],
      embed_documents_calls = [[''x''], [''y'']],
      bulk_create_calls =
        [[\<lparr> user = Some 1, embeddings = 1, emb_raw = ''x'', emb_compiled = ''x'', emb_heading = ''in g'',
            file_path = ''g'', file_type = ''org'', hashed_value = ''x'', emb_corpus_id = None \<rparr>],
         [\<lparr> user = Some 1, embeddings = 1, emb_raw = ''y'', emb_compiled = ''y'', emb_heading = ''in g'',
            file_path = ''g'', file_type = ''org'', hashed_value = ''y'', emb_corpus_id = None \<rparr>]] \<rparr>,
    Inr (2, 0))"
  by code_simp

theorem update_embeddings_one_record_per_hash_witness:
  "let current_entries =
         [\<lparr> raw = ''x'', compiled = ''x'', heading = ''in f'', file = ''f'', corpus_id = None \<rparr>,
          \<lparr> raw = ''x'', compiled = ''x'', heading = ''in g'', file = ''g'', corpus_id = None \<rparr>,
          \<lparr> raw = ''y'', compiled = ''y'', heading = ''in g'', file = ''g'', corpus_id = None \<rparr>];
       w = \<lparr> embeddings_objects = [], embeddings_dates_objects = [], embed_documents_calls = [],
             bulk_create_calls = [] \<rparr>;
       w' = fst (update_embeddings (\<lambda>s. s) (map length) (\<lambda>t. ([] :: nat list))
                   current_entries ''org'' KeyCompiled None (Some 1) False w)
   in map (map file_path) (bulk_create_calls w') = [[''g''], [''g'']] \<and>
      map (map hashed_value) (bulk_create_calls w') = [[''x''], [''y'']] \<and>
      (\<exists>batches.
         bulk_create_calls w' = bulk_create_calls w @ batches \<and>
         distinct (map hashed_value (concat batches)) \<and>
         (\<forall>r \<in> set (concat batches).
            hashed_value r \<in> hash_func (\<lambda>s. s) KeyCompiled ` set current_entries \<and>
            user r = Some 1 \<and> file_type r = ''org'' \<and>
            emb_raw r = raw (entry_for (hash_func (\<lambda>s. s) KeyCompiled) current_entries (hashed_value r)) \<and>
            emb_compiled r = compiled (entry_for (hash_func (\<lambda>s. s) KeyCompiled) current_entries (hashed_value r)) \<and>
            emb_heading r = take 1000 (heading (entry_for (hash_func (\<lambda>s. s) KeyCompiled) current_entries (hashed_value r))) \<and>
            file_path r = file (entry_for (hash_func (\<lambda>s. s) KeyCompiled) current_entries (hashed_value r)) \<and>
            emb_corpus_id r = corpus_id (entry_for (hash_func (\<lambda>s. s) KeyCompiled) current_entries (hashed_value r))))"
  unfolding Let_def
proof (intro conjI update_embeddings_one_record_per_hash)
  show "map (map file_path) (bulk_create_calls (fst (update_embeddings (\<lambda>s. s) (map length) (\<lambda>t. ([] :: nat list))
     [\<lparr> raw = ''x'', compiled = ''x'', heading = ''in f'', file = ''f'', corpus_id = None \<rparr>,
      \<lparr> raw = ''x'', compiled = ''x'', heading = ''in g'', file = ''g'', corpus_id = None \<rparr>,
      \<lparr> raw = ''y'', compiled = ''y'', heading = ''in g'', file = ''g'', corpus_id = None \<rparr>]
     ''org'' KeyCompiled None (Some 1) False
     \<lparr> embeddings_objects = [], embeddings_dates_objects = [], embed_documents_calls = [],
       bulk_create_calls = [] \<rparr>))) = [[''g''], [''g'']]"
    unfolding update_example by simp
  show "map (map hashed_value) (bulk_create_calls (fst (update_embeddings (\<lambda>s. s) (map length) (\<lambda>t. ([] :: nat list))
     [\<lparr> raw = ''x'', compiled = ''x'', heading = ''in f'', file = ''f'', corpus_id = None \<rparr>,
      \<lparr> raw = ''x'', compiled = ''x'', heading = ''in g'', file = ''g'', corpus_id = None \<rparr>,
      \<lparr> raw = ''y'', compiled = ''y'', heading = ''in g'', file = ''g'', corpus_id = None \<rparr>]
     ''org'' KeyCompiled None (Some 1) False
     \<lparr> embeddings_objects = [], embeddings_dates_objects = [], embed_documents_calls = [],
       bulk_create_calls = [] \<rparr>))) = [[''x''], [''y'']]"
    unfolding update_example by simp
qed










theorem update_embeddings_count_mismatch_fatal_witness:
  "let current_entries =
         [\<lparr> raw = ''x'', compiled = ''x'', heading = [], file = ''f'', corpus_id = None \<rparr>,
          \<lparr> raw = ''y'', compiled = ''y'', heading = [], file = ''g'', corpus_id = None \<rparr>];
       embed_documents = (\<lambda>texts. if texts = [''y''] then [] else map length texts);
       w = \<lparr> embeddings_objects = [], embeddings_dates_objects = [], embed_documents_calls = [],
             bulk_create_calls = [] \<rparr>;
       x = \<lparr> user = Some 1, embeddings = 1, emb_raw = ''x'', emb_compiled = ''x'', emb_heading = [],
             file_path = ''f'', file_type = ''org'', hashed_value = ''x'', emb_corpus_id = None \<rparr>
   in update_embeddings (\<lambda>s. s) embed_documents (\<lambda>t. ([] :: nat list))
        current_entries ''org'' KeyCompiled None (Some 1) False w =
      (\<lparr> embeddings_objects = [x], embeddings_dates_objects = [],
         embed_documents_calls = [[''x''], [''y'']], bulk_create_calls = [[x]] \<rparr>,
       Inl AssertionError)"
proof -
  let ?es = "[\<lparr> raw = ''x'', compiled = ''x'', heading = [], file = ''f'', corpus_id = None \<rparr>,
          \<lparr> raw = ''y'', compiled = ''y'', heading = [], file = ''g'', corpus_id = None \<rparr>]"
  let ?emb = "\<lambda>texts. if texts = [''y''] then [] else map length texts"
  let ?w = "\<lparr> embeddings_objects = [], embeddings_dates_objects = [], embed_documents_calls = [],
             bulk_create_calls = [] \<rparr> :: (nat, nat) world"
  let ?x = "\<lparr> user = Some 1, embeddings = 1 :: nat, emb_raw = ''x'', emb_compiled = ''x'', emb_heading = [],
             file_path = ''f'', file_type = ''org'', hashed_value = ''x'', emb_corpus_id = None \<rparr>"
  let ?w1 = "\<lparr> embeddings_objects = [?x], embeddings_dates_objects = [],
         embed_documents_calls = [[''x'']], bulk_create_calls = [[?x]] \<rparr> :: (nat, nat) world"
  let ?h2c = "py_dict (zip (map (hash_func (\<lambda>s. s) KeyCompiled) ?es) ?es)"
  have files: "hashes_by_file_of (\<lambda>s. s) KeyCompiled ?es = [(''f'', [''x''])] @ (''g'', [''y'']) # []"
    by code_simp
  have before: "process_files ?emb (\<lambda>t. ([] :: nat list)) (Some 1) ''org'' KeyCompiled ?h2c
        [(''f'', [''x''])] (start_world (Some 1) ''org'' False ?w) 0 = (?w1, Inr 1)"
    by code_simp
  have data: "data_to_embed_of KeyCompiled ?h2c (hashes_to_process_of (Some 1) ''org'' [''y''] ?w1) = [''y'']"
    by code_simp
  have mismatch: "length (?emb (data_to_embed_of KeyCompiled ?h2c
          (hashes_to_process_of (Some 1) ''org'' [''y''] ?w1))) \<noteq>
        length (data_to_embed_of KeyCompiled ?h2c (hashes_to_process_of (Some 1) ''org'' [''y''] ?w1))"
    unfolding data by simp
  from update_embeddings_count_mismatch_fatal [OF files before mismatch, of None]
  show ?thesis
    unfolding Let_def data by simp
qed

section \<open>The stale-hash pass and the records of other files\<close>

lemma set_to_delete_entry_hashes_of:
  "set (to_delete_entry_hashes_of usr f hashes_for_file w) =
     hashed_value ` {r \<in> set (embeddings_objects w). user r = usr \<and> file_path r = f} - set hashes_for_file"
  by (auto simp: to_delete_entry_hashes_of_def get_existing_entry_hashes_by_file_def Let_def)

lemma embeddings_objects_delete_stale_file:
  "embeddings_objects (fst (delete_stale_file usr f hashes_for_file w n)) =
     filter (\<lambda>r. \<not> (user r = usr \<and>
                      hashed_value r \<in> set (to_delete_entry_hashes_of usr f hashes_for_file w)))
       (embeddings_objects w)"
  by (simp add: delete_stale_file_def delete_embedding_by_hash_def delete_where_def Let_def)

text \<open>
  While the records of the owner are all of one content type and unique per
  owner, content type and hash, the stale-hash pass over a file keeps every
  record of another file.
\<close>

lemma delete_stale_file_one_content_type:
  assumes u: "unique_records (embeddings_objects w)"
    and t: "\<forall>r \<in> set (embeddings_objects w). user r = usr \<longrightarrow> file_type r = ftype"
    and r: "r \<in> set (embeddings_objects w)"
    and b: "file_path r \<noteq> file_a"
  shows "r \<in> set (embeddings_objects (fst (delete_stale_file usr file_a hashes_for_file w n)))"
proof (rule ccontr)
  assume "r \<notin> set (embeddings_objects (fst (delete_stale_file usr file_a hashes_for_file w n)))"
  with r have ur: "user r = usr"
    and h: "hashed_value r \<in> set (to_delete_entry_hashes_of usr file_a hashes_for_file w)"
    by (simp_all add: embeddings_objects_delete_stale_file)
  from h obtain r' where r': "r' \<in> set (embeddings_objects w)" "user r' = usr" "file_path r' = file_a"
    "hashed_value r' = hashed_value r"
    unfolding set_to_delete_entry_hashes_of by auto
  from t r ur have "file_type r = ftype" by blast
  moreover from t r' have "file_type r' = ftype" by blast
  ultimately have k: "(user r, file_type r, hashed_value r) = (user r', file_type r', hashed_value r')"
    using ur r' by simp
  from u have "inj_on (\<lambda>r. (user r, file_type r, hashed_value r)) (set (embeddings_objects w))"
    unfolding unique_records_def by (simp add: distinct_map)
  from inj_onD [OF this k r r'(1)] have "r = r'" .
  with r'(3) b show False by simp
qed

text \<open>
  C4 (deletion isolation). The stale-hash pass over a file can remove a record
  of another file. The existence check scopes by content type, the stale pass
  deletes by owner and hash alone. The text \<open>x\<close> is indexed for file \<open>A\<close> as
  \<open>org\<close> and for file \<open>B\<close> as \<open>markdown\<close>; then \<open>A\<close> changes to \<open>y\<close>. The
  pass over \<open>A\<close> removes the record of \<open>B\<close> too, and the run reports one
  deletion.
\<close>

theorem update_embeddings_stale_pass_other_content_type:
  "let update = (\<lambda>es ftype w. update_embeddings (\<lambda>s. s) (map length) (\<lambda>t. ([] :: nat list))
                   es ftype KeyCompiled None (Some 1) False w);
       w0 = \<lparr> embeddings_objects = [], embeddings_dates_objects = [], embed_documents_calls = [],
              bulk_create_calls = [] \<rparr>;
       w1 = fst (update [\<lparr> raw = ''x'', compiled = ''x'', heading = [], file = ''A'', corpus_id = None \<rparr>]
                   ''org'' w0);
       w2 = fst (update [\<lparr> raw = ''x'', compiled = ''x'', heading = [], file = ''B'', corpus_id = None \<rparr>]
                   ''markdown'' w1);
       run3 = update [\<lparr> raw = ''y'', compiled = ''y'', heading = [], file = ''A'', corpus_id = None \<rparr>]
                   ''org'' w2;
       shown = map (\<lambda>r. (file_path r, file_type r, hashed_value r))
   in shown (embeddings_objects w2) = [(''A'', ''org'', ''x''), (''B'', ''markdown'', ''x'')] \<and>
      snd run3 = Inr (1, 1) \<and>
      shown (embeddings_objects (fst run3)) = [(''A'', ''org'', ''y'')]"
  by code_simp

section \<open>Repeated runs\<close>

lemma no_stale_subset:
  "no_stale usr files rows \<Longrightarrow> set rows' \<subseteq> set rows \<Longrightarrow> no_stale usr files rows'"
  unfolding no_stale_def by blast

lemma no_stale_Cons:
  "no_stale usr ((f, hs) # files) rows \<longleftrightarrow>
     (\<forall>r \<in> set rows. user r = usr \<and> file_path r = f \<longrightarrow> hashed_value r \<in> set hs) \<and>
     no_stale usr files rows"
  by (simp add: no_stale_def)

lemma delete_where_subset:
  "set (embeddings_objects (fst (delete_where P w))) \<subseteq> set (embeddings_objects w)"
  by (auto simp: delete_where_def)

lemma delete_stale_file_subset:
  "set (embeddings_objects (fst (delete_stale_file usr f hs w n))) \<subseteq> set (embeddings_objects w)"
  by (auto simp: embeddings_objects_delete_stale_file)

lemma delete_stale_subset:
  "set (embeddings_objects (fst (delete_stale usr files w n))) \<subseteq> set (embeddings_objects w)"
proof (induction usr files w n rule: delete_stale.induct)
  case (1 usr w n)
  then show ?case by simp
next
  case (2 usr f hs rest w n)
  obtain w' n' where d: "delete_stale_file usr f hs w n = (w', n')"
    by (cases "delete_stale_file usr f hs w n")
  with delete_stale_file_subset [of usr f hs w n]
  have "set (embeddings_objects w') \<subseteq> set (embeddings_objects w)" by simp
  with 2 [OF d [symmetric]] d show ?case by auto
qed

lemma delete_files_subset:
  "set (embeddings_objects (fst (delete_files usr fps w n))) \<subseteq> set (embeddings_objects w)"
proof (induction usr fps w n rule: delete_files.induct)
  case (1 usr w n)
  then show ?case by simp
next
  case (2 usr fp rest w n)
  obtain w' c where d: "delete_embedding_by_file usr fp w = (w', c)"
    by (cases "delete_embedding_by_file usr fp w")
  then have "w' = fst (delete_where (\<lambda>r. user r = usr \<and> file_path r = fp) w)"
    by (simp add: delete_embedding_by_file_def)
  with delete_where_subset have "set (embeddings_objects w') \<subseteq> set (embeddings_objects w)"
    by simp
  with 2 [OF d [symmetric]] d show ?case by auto
qed

lemma delete_stale_file_no_stale:
  "\<forall>r \<in> set (embeddings_objects (fst (delete_stale_file usr f hs w n))).
     user r = usr \<and> file_path r = f \<longrightarrow> hashed_value r \<in> set hs"
  by (auto simp: embeddings_objects_delete_stale_file set_to_delete_entry_hashes_of)

lemma delete_stale_no_stale:
  "no_stale usr files (embeddings_objects (fst (delete_stale usr files w n)))"
proof (induction usr files w n rule: delete_stale.induct)
  case (1 usr w n)
  then show ?case by (simp add: no_stale_def)
next
  case (2 usr f hs rest w n)
  obtain w' n' where d: "delete_stale_file usr f hs w n = (w', n')"
    by (cases "delete_stale_file usr f hs w n")
  from delete_stale_file_no_stale [of usr f hs w n] d
  have f: "\<forall>r \<in> set (embeddings_objects w'). user r = usr \<and> file_path r = f \<longrightarrow> hashed_value r \<in> set hs"
    by simp
  have sub: "set (embeddings_objects (fst (delete_stale usr rest w' n'))) \<subseteq> set (embeddings_objects w')"
    by (rule delete_stale_subset)
  from 2 [OF d [symmetric]] have "no_stale usr rest (embeddings_objects (fst (delete_stale usr rest w' n')))" .
  with f sub show ?case
    unfolding delete_stale.simps d by (auto simp: no_stale_Cons)
qed

text \<open>On a store without stale hashes the stale pass changes nothing.\<close>

lemma delete_stale_file_nothing:
  assumes "\<forall>r \<in> set (embeddings_objects w). user r = usr \<and> file_path r = f \<longrightarrow> hashed_value r \<in> set hs"
  shows "delete_stale_file usr f hs w n = (w, n)"
proof -
  have "set (to_delete_entry_hashes_of usr f hs w) = {}"
    using assms by (auto simp: set_to_delete_entry_hashes_of)
  then have "to_delete_entry_hashes_of usr f hs w = []" by simp
  then show ?thesis
    by (simp add: delete_stale_file_def delete_embedding_by_hash_def delete_where_def Let_def)
qed

lemma delete_stale_nothing:
  "no_stale usr files (embeddings_objects w) \<Longrightarrow> delete_stale usr files w n = (w, n)"
proof (induction usr files w n rule: delete_stale.induct)
  case (1 usr w n)
  then show ?case by simp
next
  case (2 usr f hs rest w n)
  from 2(2) have f: "\<forall>r \<in> set (embeddings_objects w). user r = usr \<and> file_path r = f \<longrightarrow> hashed_value r \<in> set hs"
    and r: "no_stale usr rest (embeddings_objects w)"
    by (simp_all add: no_stale_Cons)
  from delete_stale_file_nothing [OF f] have d: "delete_stale_file usr f hs w n = (w, n)" .
  from 2(1) [OF d [symmetric] r] d show ?case by simp
qed


lemma map_of_setdefault_add:
  "map_of (setdefault_add d k v) =
     (map_of d)(k \<mapsto> set_add (case map_of d k of None \<Rightarrow> [] | Some s \<Rightarrow> s) v)"
  by (induction d k v rule: setdefault_add.induct) (auto simp: set_add_def)

lemma members_of_setdefault_add:
  "members_of (setdefault_add d k v) f = (if f = k then insert v (members_of d k) else members_of d f)"
  by (auto simp: members_of_def map_of_setdefault_add set_add_def split: option.splits)

lemma members_of_foldl:
  "members_of (foldl (\<lambda>d e. setdefault_add d (g e) (h e)) d es) f =
     members_of d f \<union> {h e | e. e \<in> set es \<and> g e = f}"
proof (induction es arbitrary: d)
  case Nil
  then show ?case by simp
next
  case (Cons e es)
  show ?case
    unfolding foldl_Cons Cons.IH members_of_setdefault_add by auto
qed

lemma hashes_by_file_of_members:
  assumes "(f, hs) \<in> set (hashes_by_file_of md5 key es)"
  shows "set hs = {hash_func md5 key e | e. e \<in> set es \<and> file e = f}"
proof -
  from hashes_by_file_of_files [of md5 key es] assms
  have "map_of (hashes_by_file_of md5 key es) f = Some hs"
    by simp
  then have "set hs = members_of (hashes_by_file_of md5 key es) f"
    by (simp add: members_of_def)
  also have "\<dots> = {hash_func md5 key e | e. e \<in> set es \<and> file e = f}"
    unfolding hashes_by_file_of_def members_of_foldl by (simp add: members_of_def)
  finally show ?thesis .
qed

text \<open>The records a run creates are not stale for the file they are stored for.\<close>

lemma created_rows_no_stale:
  assumes "created_rows_ok usr ftype (py_dict (zip (map (hash_func md5 key) es) es)) old rows"
  shows "no_stale usr (hashes_by_file_of md5 key es) rows"
proof -
  let ?f = "hash_func md5 key"
  let ?h2c = "py_dict (zip (map ?f es) es)"
  have "\<forall>r \<in> set rows. \<forall>f hs.
      (f, hs) \<in> set (hashes_by_file_of md5 key es) \<and> file_path r = f \<longrightarrow> hashed_value r \<in> set hs"
  proof (intro ballI allI impI)
    fix r f hs
    assume r: "r \<in> set rows"
      and a: "(f, hs) \<in> set (hashes_by_file_of md5 key es) \<and> file_path r = f"
    then have fh: "(f, hs) \<in> set (hashes_by_file_of md5 key es)" and fp: "file_path r = f"
      by simp_all
    from assms r have d: "hashed_value r \<in> dom ?h2c"
      and n: "r = new_embedding usr ftype (hashed_value r) (embeddings r) (the (?h2c (hashed_value r)))"
      unfolding created_rows_ok_def by blast+
    from d have h: "hashed_value r \<in> ?f ` set es"
      by (simp only: dom_hash_to_current_entries)
    then have t: "the (?h2c (hashed_value r)) = entry_for ?f es (hashed_value r)"
      by (rule the_hash_to_current_entries)
    let ?e = "entry_for ?f es (hashed_value r)"
    from h have e: "?e \<in> set es" "?f ?e = hashed_value r"
      by (simp_all add: entry_for_in entry_for_hash)
    from n t have "file_path r = file_path (new_embedding usr ftype (hashed_value r) (embeddings r) ?e)"
      by simp
    then have "file_path r = file ?e" by (simp add: new_embedding_def)
    with fp e have "hashed_value r = ?f ?e \<and> ?e \<in> set es \<and> file ?e = f" by simp
    then have "hashed_value r \<in> {?f e | e. e \<in> set es \<and> file e = f}" by blast
    with hashes_by_file_of_members [OF fh] show "hashed_value r \<in> set hs" by simp
  qed
  then show ?thesis unfolding no_stale_def by blast
qed

lemma no_stale_append:
  "no_stale usr files (xs @ ys) \<longleftrightarrow> no_stale usr files xs \<and> no_stale usr files ys"
  unfolding no_stale_def by auto

text \<open>
  A run that returns leaves no stale hash behind, and a run without deletion
  set and without \<open>regenerate\<close> on such a store deletes nothing.
\<close>

lemma update_embeddings_leaves_no_stale:
  assumes "update_embeddings md5 emb exd es ftype key del usr regenerate w = (w', Inr res)"
  shows "no_stale usr (hashes_by_file_of md5 key es) (embeddings_objects w')"
proof -
  let ?files = "hashes_by_file_of md5 key es"
  let ?CP = "creation_phase md5 emb exd es ftype key usr regenerate w"
  from assms obtain c where c: "snd ?CP = Inr c"
    by (cases "snd ?CP") (auto simp: update_embeddings_error)
  then obtain w1 where cp: "?CP = (w1, Inr c)" by (cases ?CP) auto
  define n0 where "n0 = (if regenerate then snd (delete_all_embeddings usr ftype w) else 0)"
  define S where "S = delete_stale usr ?files w1 n0"
  define D where "D = (case del of None \<Rightarrow> S | Some fps \<Rightarrow> delete_files usr fps (fst S) (snd S))"
  have u: "update_embeddings md5 emb exd es ftype key del usr regenerate w = (fst D, Inr (c, snd D))"
    using cp
    by (auto simp: update_embeddings_def creation_phase_def start_world_def Let_def D_def S_def n0_def
        split: prod.splits if_splits option.splits)
  with assms have w': "w' = fst D" by simp
  have s: "no_stale usr ?files (embeddings_objects (fst S))"
    unfolding S_def by (rule delete_stale_no_stale)
  have "set (embeddings_objects (fst D)) \<subseteq> set (embeddings_objects (fst S))"
    unfolding D_def by (auto split: option.splits dest: delete_files_subset [THEN subsetD])
  with s show ?thesis unfolding w' by (rule no_stale_subset)
qed

lemma update_embeddings_deletes_nothing:
  assumes ns: "no_stale usr (hashes_by_file_of md5 key es) (embeddings_objects w)"
  shows "snd (update_embeddings md5 emb exd es ftype key None usr False w) = Inl AssertionError \<or>
     (\<exists>num_new. snd (update_embeddings md5 emb exd es ftype key None usr False w) = Inr (num_new, 0))"
proof -
  let ?files = "hashes_by_file_of md5 key es"
  let ?CP = "creation_phase md5 emb exd es ftype key usr False w"
  from creation_phase_summary [of md5 emb exd es ftype key usr False w]
  obtain rows where
    e: "embeddings_objects (fst ?CP) = embeddings_objects (start_world usr ftype False w) @ rows" and
    ok: "created_rows_ok usr ftype (py_dict (zip (map (hash_func md5 key) es) es))
       (embeddings_objects (start_world usr ftype False w)) rows" and
    r: "snd ?CP = Inl AssertionError \<or> snd ?CP = Inr (length rows)"
    by blast
  from r show ?thesis
  proof
    assume "snd ?CP = Inl AssertionError"
    then show ?thesis by (simp add: update_embeddings_error)
  next
    assume c: "snd ?CP = Inr (length rows)"
    then obtain w1 where cp: "?CP = (w1, Inr (length rows))" by (cases ?CP) auto
    from e cp have "embeddings_objects w1 = embeddings_objects w @ rows"
      by (simp add: start_world_def)
    with ns created_rows_no_stale [OF ok] have "no_stale usr ?files (embeddings_objects w1)"
      by (simp add: no_stale_append)
    then have "delete_stale usr ?files w1 0 = (w1, 0)" by (rule delete_stale_nothing)
    with cp have "update_embeddings md5 emb exd es ftype key None usr False w =
        (w1, Inr (length rows, 0))"
      by (simp add: update_embeddings_def creation_phase_def start_world_def Let_def)
    then show ?thesis by simp
  qed
qed

lemma update_embeddings_second_run_deletes_nothing:
  assumes "update_embeddings md5 emb exd es ftype key del usr regenerate w = (w', Inr res)"
  shows "snd (update_embeddings md5 emb' exd es ftype key None usr False w') = Inl AssertionError \<or>
     (\<exists>num_new. snd (update_embeddings md5 emb' exd es ftype key None usr False w') = Inr (num_new, 0))"
  by (rule update_embeddings_deletes_nothing [OF update_embeddings_leaves_no_stale [OF assms]])


lemma all_recorded_mono:
  "all_recorded usr ftype hs rows \<Longrightarrow> set rows \<subseteq> set rows' \<Longrightarrow> all_recorded usr ftype hs rows'"
  unfolding all_recorded_def by blast

lemma all_recorded_Un:
  "all_recorded usr ftype (A \<union> B) rows \<longleftrightarrow> all_recorded usr ftype A rows \<and> all_recorded usr ftype B rows"
  unfolding all_recorded_def by blast

lemma process_file_complete:
  assumes dom: "set hashes \<subseteq> dom h2c"
    and ok: "snd (process_file emb exd usr ftype key h2c hashes w n) = Inr c"
  shows "all_recorded usr ftype (set hashes)
     (embeddings_objects (fst (process_file emb exd usr ftype key h2c hashes w n)))"
proof -
  let ?hs = "hashes_to_process_of usr ftype hashes w"
  let ?data = "data_to_embed_of key h2c ?hs"
  have len: "length (emb ?data) = length ?hs"
  proof (rule ccontr)
    assume "length (emb ?data) \<noteq> length ?hs"
    then have "process_file emb exd usr ftype key h2c hashes w n =
       (w \<lparr> embed_documents_calls := embed_documents_calls w @ [?data] \<rparr>, Inl AssertionError)"
      by (rule process_file_mismatch [OF dom])
    with ok show False by simp
  qed
  with process_file_match [OF dom, of emb key usr ftype w exd n]
  have e: "embeddings_objects (fst (process_file emb exd usr ftype key h2c hashes w n)) =
      embeddings_objects w @ rows_for usr ftype h2c (zip ?hs (emb ?data))"
    by simp
  have hv: "map hashed_value (rows_for usr ftype h2c (zip ?hs (emb ?data))) = ?hs"
    using len by (simp add: hashed_value_rows_for)
  show ?thesis
    unfolding all_recorded_def e
  proof
    fix h assume h: "h \<in> set hashes"
    show "\<exists>r \<in> set (embeddings_objects w @ rows_for usr ftype h2c (zip ?hs (emb ?data))).
        user r = usr \<and> file_type r = ftype \<and> hashed_value r = h"
    proof (cases "h \<in> set ?hs")
      case True
      then have "h \<in> set (map hashed_value (rows_for usr ftype h2c (zip ?hs (emb ?data))))"
        by (simp only: hv)
      then obtain r where r: "r \<in> set (rows_for usr ftype h2c (zip ?hs (emb ?data)))"
        and "hashed_value r = h" by auto
      with rows_for_elem [OF r] show ?thesis by auto
    next
      case False
      with h show ?thesis by (auto simp: set_hashes_to_process_of)
    qed
  qed
qed

lemma process_file_grows:
  assumes "set hashes \<subseteq> dom h2c" and "distinct hashes"
  shows "set (embeddings_objects w) \<subseteq>
     set (embeddings_objects (fst (process_file emb exd usr ftype key h2c hashes w n)))"
  using process_file_summary [OF assms, of emb exd usr ftype key w n] by auto

lemma process_files_grows:
  assumes "\<forall>(f, hs) \<in> set files. set hs \<subseteq> dom h2c \<and> distinct hs"
  shows "set (embeddings_objects w) \<subseteq>
     set (embeddings_objects (fst (process_files emb exd usr ftype key h2c files w n)))"
  using process_files_summary [OF assms, of emb exd usr ftype key w n] by auto

lemma process_files_complete:
  assumes "\<forall>(f, hs) \<in> set files. set hs \<subseteq> dom h2c \<and> distinct hs"
    and "snd (process_files emb exd usr ftype key h2c files w n) = Inr c"
  shows "all_recorded usr ftype (\<Union>(f, hs) \<in> set files. set hs)
     (embeddings_objects (fst (process_files emb exd usr ftype key h2c files w n)))"
  using assms
proof (induction files arbitrary: w n)
  case Nil
  then show ?case by (simp add: all_recorded_def)
next
  case (Cons fh rest)
  obtain f hashes where fh: "fh = (f, hashes)" by (cases fh)
  from Cons.prems(1) fh have dom: "set hashes \<subseteq> dom h2c" and dist: "distinct hashes"
    and rest: "\<forall>(f, hs) \<in> set rest. set hs \<subseteq> dom h2c \<and> distinct hs"
    by simp_all
  obtain w1 r1 where pf: "process_file emb exd usr ftype key h2c hashes w n = (w1, r1)"
    by (cases "process_file emb exd usr ftype key h2c hashes w n")
  from Cons.prems(2) fh pf obtain n1 where r1: "r1 = Inr n1"
    by (cases r1) auto
  with fh pf have step: "process_files emb exd usr ftype key h2c (fh # rest) w n =
      process_files emb exd usr ftype key h2c rest w1 n1"
    by simp
  from process_file_complete [OF dom, of emb exd usr ftype key w n n1] pf r1
  have 1: "all_recorded usr ftype (set hashes) (embeddings_objects w1)" by simp
  have "set (embeddings_objects w1) \<subseteq>
      set (embeddings_objects (fst (process_files emb exd usr ftype key h2c rest w1 n1)))"
    by (rule process_files_grows [OF rest])
  with 1 have 2: "all_recorded usr ftype (set hashes)
      (embeddings_objects (fst (process_files emb exd usr ftype key h2c rest w1 n1)))"
    by (rule all_recorded_mono)
  from Cons.prems(2) step have "snd (process_files emb exd usr ftype key h2c rest w1 n1) = Inr c"
    by simp
  from Cons.IH [OF rest this] 2
  have "all_recorded usr ftype (set hashes \<union> (\<Union>(f, hs) \<in> set rest. set hs))
      (embeddings_objects (fst (process_files emb exd usr ftype key h2c rest w1 n1)))"
    by (simp only: all_recorded_Un)
  then show ?case
    unfolding step unfolding fh by simp
qed

lemma hashes_by_file_of_union:
  "(\<Union>(f, hs) \<in> set (hashes_by_file_of md5 key es). set hs) = hash_func md5 key ` set es"
proof
  show "(\<Union>(f, hs) \<in> set (hashes_by_file_of md5 key es). set hs) \<subseteq> hash_func md5 key ` set es"
    using hashes_by_file_of_inv [of md5 key es] by auto
  show "hash_func md5 key ` set es \<subseteq> (\<Union>(f, hs) \<in> set (hashes_by_file_of md5 key es). set hs)"
  proof
    fix h assume "h \<in> hash_func md5 key ` set es"
    then obtain e where e: "e \<in> set es" "h = hash_func md5 key e" by auto
    then have "file e \<in> set (map fst (hashes_by_file_of md5 key es))"
      by (simp only: hashes_by_file_of_files) simp
    then obtain hs where fh: "(file e, hs) \<in> set (hashes_by_file_of md5 key es)" by auto
    from hashes_by_file_of_members [OF fh] e have "h \<in> set hs" by auto
    with fh show "h \<in> (\<Union>(f, hs) \<in> set (hashes_by_file_of md5 key es). set hs)" by auto
  qed
qed


lemma creation_phase_complete:
  assumes "snd (creation_phase md5 emb exd es ftype key usr regenerate w) = Inr c"
  shows "all_recorded usr ftype (hash_func md5 key ` set es)
     (embeddings_objects (fst (creation_phase md5 emb exd es ftype key usr regenerate w)))"
proof -
  have "\<forall>(f, hs) \<in> set (hashes_by_file_of md5 key es).
      set hs \<subseteq> dom (py_dict (zip (map (hash_func md5 key) es) es)) \<and> distinct hs"
    using hashes_by_file_of_inv [of md5 key es]
    by (auto simp: dom_hash_to_current_entries)
  from process_files_complete [OF this assms [unfolded creation_phase_def]]
  show ?thesis
    unfolding creation_phase_def [symmetric] hashes_by_file_of_union .
qed

lemma update_embeddings_creates_nothing:
  assumes "all_recorded usr ftype (hash_func md5 key ` set es) (embeddings_objects w)"
  shows "snd (update_embeddings md5 emb exd es ftype key del usr False w) = Inl AssertionError \<or>
     (\<exists>num_deleted. snd (update_embeddings md5 emb exd es ftype key del usr False w) = Inr (0, num_deleted))"
proof -
  let ?CP = "creation_phase md5 emb exd es ftype key usr False w"
  let ?h2c = "py_dict (zip (map (hash_func md5 key) es) es)"
  from creation_phase_summary [of md5 emb exd es ftype key usr False w]
  obtain rows where
    ok: "created_rows_ok usr ftype ?h2c (embeddings_objects (start_world usr ftype False w)) rows" and
    r: "snd ?CP = Inl AssertionError \<or> snd ?CP = Inr (length rows)"
    by blast
  have "rows = []"
  proof (rule ccontr)
    assume "rows \<noteq> []"
    then obtain r where r: "r \<in> set rows" by (cases rows) auto
    with ok have d: "hashed_value r \<in> dom ?h2c"
      and n: "\<not> (\<exists>r' \<in> set (embeddings_objects w).
          user r' = usr \<and> file_type r' = ftype \<and> hashed_value r' = hashed_value r)"
      unfolding created_rows_ok_def by (auto simp: start_world_def)
    from d have "hashed_value r \<in> hash_func md5 key ` set es"
      by (simp only: dom_hash_to_current_entries)
    with assms n show False unfolding all_recorded_def by blast
  qed
  with r have "snd ?CP = Inl AssertionError \<or> snd ?CP = Inr 0" by simp
  then show ?thesis
  proof
    assume "snd ?CP = Inl AssertionError"
    then show ?thesis by (simp add: update_embeddings_error)
  next
    assume "snd ?CP = Inr 0"
    from update_embeddings_success(1) [OF this, of del] show ?thesis by blast
  qed
qed

text \<open>
  What holds of repeated runs: a run that follows a run of the same entries
  deletes nothing, and the run after that creates nothing either.
\<close>

lemma update_embeddings_third_run:
  assumes run1: "update_embeddings md5 emb1 exd es ftype key del usr regenerate w = (w1, Inr res1)"
    and run2: "update_embeddings md5 emb2 exd es ftype key None usr False w1 = (w2, Inr res2)"
  shows "snd res2 = 0"
    and "snd (update_embeddings md5 emb3 exd es ftype key None usr False w2) = Inl AssertionError \<or>
         snd (update_embeddings md5 emb3 exd es ftype key None usr False w2) = Inr (0, 0)"
proof -
  let ?files = "hashes_by_file_of md5 key es"
  have ns1: "no_stale usr ?files (embeddings_objects w1)"
    by (rule update_embeddings_leaves_no_stale [OF run1])
  from update_embeddings_deletes_nothing [OF ns1, where emb = emb2 and exd = exd and ftype = ftype] run2
  show d2: "snd res2 = 0" by auto
  let ?CP = "creation_phase md5 emb2 exd es ftype key usr False w1"
  from run2 obtain c where c: "snd ?CP = Inr c"
    by (cases "snd ?CP") (auto simp: update_embeddings_error)
  then obtain w1' where cp: "?CP = (w1', Inr c)" by (cases ?CP) auto
  from creation_phase_summary [of md5 emb2 exd es ftype key usr False w1]
  obtain rows where
    e: "embeddings_objects (fst ?CP) = embeddings_objects (start_world usr ftype False w1) @ rows" and
    ok: "created_rows_ok usr ftype (py_dict (zip (map (hash_func md5 key) es) es))
       (embeddings_objects (start_world usr ftype False w1)) rows"
    by blast
  from e cp have e': "embeddings_objects w1' = embeddings_objects w1 @ rows"
    by (simp add: start_world_def)
  with ns1 created_rows_no_stale [OF ok] have "no_stale usr ?files (embeddings_objects w1')"
    by (simp add: no_stale_append)
  then have "delete_stale usr ?files w1' 0 = (w1', 0)" by (rule delete_stale_nothing)
  with cp have "update_embeddings md5 emb2 exd es ftype key None usr False w1 = (w1', Inr (c, 0))"
    by (simp add: update_embeddings_def creation_phase_def start_world_def Let_def)
  with run2 have w2: "w2 = w1'" by simp
  from creation_phase_complete [OF c] cp
  have ar: "all_recorded usr ftype (hash_func md5 key ` set es) (embeddings_objects w2)"
    by (simp add: w2)
  from e' ns1 created_rows_no_stale [OF ok] have ns2: "no_stale usr ?files (embeddings_objects w2)"
    by (simp add: no_stale_append w2)
  from update_embeddings_creates_nothing [OF ar, where emb = emb3 and exd = exd and del = None]
    update_embeddings_deletes_nothing [OF ns2, where emb = emb3 and exd = exd and ftype = ftype]
  show "snd (update_embeddings md5 emb3 exd es ftype key None usr False w2) = Inl AssertionError \<or>
         snd (update_embeddings md5 emb3 exd es ftype key None usr False w2) = Inr (0, 0)"
    by auto
qed

subsection \<open>A run returns, and keeps records unique\<close>

text \<open>With an embedding model that returns one vector per text, a run returns.\<close>

lemma process_files_returns:
  assumes "\<forall>(f, hs) \<in> set files. set hs \<subseteq> dom h2c \<and> distinct hs"
    and "\<forall>texts. length (emb texts) = length texts"
  shows "\<exists>c. snd (process_files emb exd usr ftype key h2c files w n) = Inr c"
  using assms(1)
proof (induction files arbitrary: w n)
  case Nil
  then show ?case by simp
next
  case (Cons fh rest)
  obtain f hashes where fh: "fh = (f, hashes)" by (cases fh)
  from Cons.prems fh have dom: "set hashes \<subseteq> dom h2c"
    and rest: "\<forall>(f, hs) \<in> set rest. set hs \<subseteq> dom h2c \<and> distinct hs"
    by simp_all
  from assms(2) have "length (emb (data_to_embed_of key h2c (hashes_to_process_of usr ftype hashes w))) =
      length (hashes_to_process_of usr ftype hashes w)"
    by simp
  with process_file_match [OF dom, of emb key usr ftype w exd n]
  obtain n1 where "snd (process_file emb exd usr ftype key h2c hashes w n) = Inr n1" by blast
  then obtain w1 where pf: "process_file emb exd usr ftype key h2c hashes w n = (w1, Inr n1)"
    by (cases "process_file emb exd usr ftype key h2c hashes w n") auto
  from Cons.IH [OF rest, of w1 n1] pf fh show ?case by simp
qed

lemma update_embeddings_returns:
  assumes "\<forall>texts. length (emb texts) = length texts"
  shows "\<exists>num_new num_deleted.
     snd (update_embeddings md5 emb exd es ftype key del usr regenerate w) = Inr (num_new, num_deleted)"
proof -
  have "\<forall>(f, hs) \<in> set (hashes_by_file_of md5 key es).
      set hs \<subseteq> dom (py_dict (zip (map (hash_func md5 key) es) es)) \<and> distinct hs"
    using hashes_by_file_of_inv [of md5 key es]
    by (auto simp: dom_hash_to_current_entries)
  from process_files_returns [OF this assms, of exd usr ftype key "start_world usr ftype regenerate w" 0]
  obtain c where "snd (creation_phase md5 emb exd es ftype key usr regenerate w) = Inr c"
    unfolding creation_phase_def by blast
  from update_embeddings_success(1) [OF this, of del] show ?thesis by blast
qed

text \<open>
  A run keeps the rows of the store pairwise different in owner, content type
  and hash, the uniqueness that the spec gives the persisted records.
\<close>

lemma unique_records_filter: "unique_records rows \<Longrightarrow> unique_records (filter P rows)"
  unfolding unique_records_def by (simp add: distinct_map_filter)

lemma unique_records_created:
  assumes "unique_records old" and "created_rows_ok usr ftype h2c old rows"
  shows "unique_records (old @ rows)"
proof -
  let ?k = "\<lambda>r. (user r, file_type r, hashed_value r)"
  from assms(2) have d: "distinct (map hashed_value rows)"
    and u: "\<forall>r \<in> set rows. user r = usr \<and> file_type r = ftype"
    and n: "\<forall>r \<in> set rows. \<not> (\<exists>r' \<in> set old.
        user r' = usr \<and> file_type r' = ftype \<and> hashed_value r' = hashed_value r)"
    unfolding created_rows_ok_def by blast+
  have "inj_on hashed_value (set rows)" using d by (simp add: distinct_map)
  then have "inj_on ?k (set rows)" by (auto simp: inj_on_def)
  moreover from d have "distinct rows" by (simp add: distinct_map)
  ultimately have 1: "distinct (map ?k rows)" by (simp add: distinct_map)
  have 2: "?k ` set old \<inter> ?k ` set rows = {}"
    using u n by force
  from assms(1) 1 2 show ?thesis by (simp add: unique_records_def)
qed

text \<open>
  A run keeps the records unique per owner, content type and hash, so the
  creation of records never meets a record that is already there.
\<close>

lemma delete_stale_filter:
  "\<exists>P. embeddings_objects (fst (delete_stale usr files w n)) = filter P (embeddings_objects w)"
proof (induction usr files w n rule: delete_stale.induct)
  case (1 usr w n)
  show ?case by (intro exI [of _ "\<lambda>r. True"]) simp
next
  case (2 usr f hs rest w n)
  obtain w' n' where d: "delete_stale_file usr f hs w n = (w', n')"
    by (cases "delete_stale_file usr f hs w n")
  from embeddings_objects_delete_stale_file [of usr f hs w n] d
  obtain Q where q: "embeddings_objects w' = filter Q (embeddings_objects w)" by auto
  from 2 [OF d [symmetric]] obtain P where
    "embeddings_objects (fst (delete_stale usr rest w' n')) = filter P (embeddings_objects w')" by blast
  with q d show ?case
    by (intro exI [of _ "\<lambda>r. Q r \<and> P r"]) simp
qed

lemma delete_files_filter:
  "\<exists>P. embeddings_objects (fst (delete_files usr fps w n)) = filter P (embeddings_objects w)"
proof (induction usr fps w n rule: delete_files.induct)
  case (1 usr w n)
  show ?case by (intro exI [of _ "\<lambda>r. True"]) simp
next
  case (2 usr fp rest w n)
  obtain w' c where d: "delete_embedding_by_file usr fp w = (w', c)"
    by (cases "delete_embedding_by_file usr fp w")
  then have q: "embeddings_objects w' =
      filter (\<lambda>r. \<not> (user r = usr \<and> file_path r = fp)) (embeddings_objects w)"
    by (auto simp: delete_embedding_by_file_def delete_where_def)
  from 2 [OF d [symmetric]] obtain P where
    "embeddings_objects (fst (delete_files usr rest w' (n + c))) = filter P (embeddings_objects w')" by blast
  with q d show ?case
    by (intro exI [of _ "\<lambda>r. \<not> (user r = usr \<and> file_path r = fp) \<and> P r"]) simp
qed

lemma update_embeddings_unique_records:
  assumes "unique_records (embeddings_objects w)"
  shows "unique_records (embeddings_objects
     (fst (update_embeddings md5 emb exd es ftype key del usr regenerate w)))"
proof -
  let ?CP = "creation_phase md5 emb exd es ftype key usr regenerate w"
  let ?files = "hashes_by_file_of md5 key es"
  have s: "unique_records (embeddings_objects (start_world usr ftype regenerate w))"
    using assms
    by (auto simp: start_world_def delete_all_embeddings_def delete_where_def intro: unique_records_filter)
  from creation_phase_summary [of md5 emb exd es ftype key usr regenerate w]
  obtain rows where
    e: "embeddings_objects (fst ?CP) = embeddings_objects (start_world usr ftype regenerate w) @ rows" and
    ok: "created_rows_ok usr ftype (py_dict (zip (map (hash_func md5 key) es) es))
       (embeddings_objects (start_world usr ftype regenerate w)) rows"
    by blast
  from unique_records_created [OF s ok] e have cp: "unique_records (embeddings_objects (fst ?CP))"
    by simp
  show ?thesis
  proof (cases "snd ?CP")
    case (Inl err)
    with cp show ?thesis by (simp add: update_embeddings_error)
  next
    case (Inr c)
    then obtain w1 where c: "?CP = (w1, Inr c)" by (cases ?CP) auto
    define n0 where "n0 = (if regenerate then snd (delete_all_embeddings usr ftype w) else 0)"
    define S where "S = delete_stale usr ?files w1 n0"
    define D where "D = (case del of None \<Rightarrow> S | Some fps \<Rightarrow> delete_files usr fps (fst S) (snd S))"
    have u: "update_embeddings md5 emb exd es ftype key del usr regenerate w = (fst D, Inr (c, snd D))"
      using c
      by (auto simp: update_embeddings_def creation_phase_def start_world_def Let_def D_def S_def n0_def
          split: prod.splits if_splits option.splits)
    from delete_stale_filter [of usr ?files w1 n0] obtain P where
      p: "embeddings_objects (fst S) = filter P (embeddings_objects w1)"
      unfolding S_def by blast
    from cp c have "unique_records (embeddings_objects w1)" by simp
    then have us: "unique_records (embeddings_objects (fst S))"
      unfolding p by (rule unique_records_filter)
    have "unique_records (embeddings_objects (fst D))"
    proof (cases del)
      case None
      with us show ?thesis by (simp add: D_def)
    next
      case (Some fps)
      from delete_files_filter [of usr fps "fst S" "snd S"] obtain Q where
        "embeddings_objects (fst (delete_files usr fps (fst S) (snd S))) =
           filter Q (embeddings_objects (fst S))" by blast
      with us Some show ?thesis by (simp add: D_def unique_records_filter)
    qed
    with u show ?thesis by simp
  qed
qed

text \<open>
  C1 (idempotence). The second of two identical runs can create a record. The
  store holds a record for the text \<open>x\<close> of file \<open>f\<close>. In the next run \<open>f\<close>
  has the text \<open>y\<close> and \<open>x\<close> is in file \<open>g\<close>: the run creates \<open>y\<close>, finds a
  record for \<open>x\<close> and creates none, then deletes that record as stale for \<open>f\<close>.
  The same entries again: the run creates the record for \<open>x\<close> and returns
  \<open>(1, 0)\<close>.
\<close>

theorem update_embeddings_second_run_creates:
  "let es1 = [\<lparr> raw = ''x'', compiled = ''x'', heading = [], file = ''f'', corpus_id = None \<rparr>];
       es2 = [\<lparr> raw = ''y'', compiled = ''y'', heading = [], file = ''f'', corpus_id = None \<rparr>,
              \<lparr> raw = ''x'', compiled = ''x'', heading = [], file = ''g'', corpus_id = None \<rparr>];
       update = (\<lambda>es w. update_embeddings (\<lambda>s. s) (map length) (\<lambda>t. ([] :: nat list))
                   es ''org'' KeyCompiled None (Some 1) False w);
       w0 = \<lparr> embeddings_objects = [], embeddings_dates_objects = [], embed_documents_calls = [],
              bulk_create_calls = [] \<rparr>;
       w1 = fst (update es1 w0);
       w2 = fst (update es2 w1)
   in snd (update es1 w0) = Inr (1, 0) \<and>
      snd (update es2 w1) = Inr (1, 1) \<and>
      map hashed_value (embeddings_objects w2) = [''y''] \<and>
      snd (update es2 w2) = Inr (1, 0)"
  by code_simp

end
